theory Spec2Isabelle
  imports Main
begin

section \<open>Strings\<close>

text \<open>
  Names and paths are JavaScript strings, modelled as \<open>string\<close> (a list of 8-bit
  characters). The helpers below are the string methods \<open>script.js\<close> calls.
\<close>

definition toLowerCase_char :: "char \<Rightarrow> char" where
  \<comment> \<open>A-Z, and the upper-case letters of Latin-1 (all of 192..222 but the sign 215).\<close>
  "toLowerCase_char c =
     (let n = (of_char c :: nat)
      in if (65 \<le> n \<and> n \<le> 90) \<or> (192 \<le> n \<and> n \<le> 222 \<and> n \<noteq> 215)
         then char_of (n + 32) else c)"

definition toLowerCase :: "string \<Rightarrow> string" where
  "toLowerCase s = map toLowerCase_char s"

definition endsWith :: "string \<Rightarrow> string \<Rightarrow> bool" where
  "endsWith s ext = (length ext \<le> length s \<and> drop (length s - length ext) s = ext)"

definition isWordChar :: "char \<Rightarrow> bool" where
  \<comment> \<open>The class \<open>\w\<close> of a regular expression without the unicode flag: A-Z, a-z, 0-9 and _.\<close>
  "isWordChar c =
     (let n = (of_char c :: nat)
      in (48 \<le> n \<and> n \<le> 57) \<or> (65 \<le> n \<and> n \<le> 90) \<or> n = 95 \<or> (97 \<le> n \<and> n \<le> 122))"

fun matchGenericExtension :: "string \<Rightarrow> bool" where
  \<comment> \<open>\<open>/\.\w{1,5}$/.test(s)\<close>: at some position a dot, then one to five word characters,
      then the end of the string.\<close>
  "matchGenericExtension [] = False"
| "matchGenericExtension (c # cs) =
     ((c = CHR ''.'' \<and> 1 \<le> length cs \<and> length cs \<le> 5 \<and> list_all isWordChar cs)
      \<or> matchGenericExtension cs)"

fun split :: "char \<Rightarrow> string \<Rightarrow> string list" where
  \<comment> \<open>\<open>s.split(sep)\<close> for a one-character separator; the result is never empty.\<close>
  "split sep [] = [[]]"
| "split sep (c # cs) =
     (if c = sep then [] # split sep cs
      else (case split sep cs of
              [] \<Rightarrow> [[c]]
            | w # ws \<Rightarrow> (c # w) # ws))"

fun join :: "char \<Rightarrow> string list \<Rightarrow> string" where
  \<comment> \<open>\<open>parts.join(sep)\<close>\<close>
  "join sep [] = []"
| "join sep [p] = p"
| "join sep (p # q # ps) = p @ sep # join sep (q # ps)"

definition orElse :: "string \<Rightarrow> string \<Rightarrow> string" where
  \<comment> \<open>\<open>a || b\<close> on strings: the empty string is the only falsy one.\<close>
  "orElse a b = (if a = [] then b else a)"

section \<open>Configuration and the classifier\<close>

definition SUPPORTED_FILE_EXTENSIONS :: "string list" where
  "SUPPORTED_FILE_EXTENSIONS =
    [''.html'', ''.htm'', ''.css'', ''.js'', ''.json'', ''.xml'', ''.txt'', ''.md'',
     ''.jpg'', ''.jpeg'', ''.png'', ''.gif'', ''.svg'', ''.bmp'', ''.webp'', ''.ico'',
     ''.zip'', ''.rar'', ''.7z'', ''.tar'', ''.gz'', ''.pdf'', ''.doc'', ''.docx'',
     ''.xls'', ''.xlsx'', ''.ppt'', ''.pptx'', ''.mp3'', ''.mp4'', ''.avi'', ''.mov'',
     ''.wmv'', ''.csv'', ''.log'', ''.ini'', ''.conf'', ''.config'']"

definition isFile :: "string \<Rightarrow> bool" where
  "isFile name =
     (let lowerName = toLowerCase name;
          hasExtension = list_ex (\<lambda>ext. endsWith lowerName ext) SUPPORTED_FILE_EXTENSIONS;
          hasGenericExtension = matchGenericExtension lowerName
      in hasExtension \<or> hasGenericExtension)"

section \<open>File entries and the grouping pass\<close>

text \<open>
  A \<open>File\<close> of the browser, as far as \<open>script.js\<close> reads it: its
  \<open>webkitRelativePath\<close> and its \<open>name\<close>.
\<close>

record fileEntry =
  webkitRelativePath :: string
  file_name :: string

definition segment :: "'a list \<Rightarrow> nat \<Rightarrow> 'a option" where
  \<comment> \<open>\<open>parts[i]\<close>; \<open>None\<close> stands for \<open>undefined\<close>.\<close>
  "segment parts i = (if i < length parts then Some (parts ! i) else None)"

definition truthy :: "string option \<Rightarrow> bool" where
  \<comment> \<open>\<open>null\<close>, \<open>undefined\<close> and the empty string are falsy.\<close>
  "truthy v = (case v of None \<Rightarrow> False | Some str \<Rightarrow> str \<noteq> [])"

definition extractCommonRoot :: "string list list \<Rightarrow> string option" where
  "extractCommonRoot pathParts =
     (let uniqueRoots = remdups (map (\<lambda>parts. segment parts 0) pathParts)
      in if length uniqueRoots = 1
         then (case pathParts of [] \<Rightarrow> None | first # _ \<Rightarrow> segment first 0)
         else None)"

definition extractFolderName :: "string list \<Rightarrow> string option \<Rightarrow> 'a list list \<Rightarrow> string option" where
  \<comment> \<open>The third argument is documented as the path parts of the whole batch
      (a list of string lists). JavaScript takes any array of things with a
      \<open>length\<close>, so the element type is left open: \<open>processUploadedFiles\<close>
      passes one path, a list of strings.\<close>
  "extractFolderName pathParts commonRoot allPathParts =
     (let hasNestedFolders = list_ex (\<lambda>parts. length parts > 1) allPathParts;
          isNested = (length pathParts > 1)
      in if truthy commonRoot \<and> hasNestedFolders \<and> isNested
         then segment pathParts 1
         else segment pathParts 0)"

fun mapPush :: "string \<Rightarrow> fileEntry \<Rightarrow> (string \<times> fileEntry list) list \<Rightarrow> (string \<times> fileEntry list) list" where
  \<comment> \<open>The \<open>Map\<close> keeps its keys in insertion order: \<open>has\<close>, \<open>set(name, [])\<close>
      when absent, then \<open>get(name).push(file)\<close>.\<close>
  "mapPush folderName f [] = [(folderName, [f])]"
| "mapPush folderName f ((k, fs) # m) =
     (if k = folderName then (k, fs @ [f]) # m else (k, fs) # mapPush folderName f m)"

definition folderNameOf :: "string option \<Rightarrow> fileEntry \<Rightarrow> string option" where
  \<comment> \<open>The body of the grouping \<open>forEach\<close>: its own \<open>const pathParts\<close> hides the
      outer one, and is passed twice.\<close>
  "folderNameOf commonRoot f =
     (let pathParts = split CHR ''/'' (webkitRelativePath f)
      in extractFolderName pathParts commonRoot pathParts)"

definition groupFiles :: "fileEntry list \<Rightarrow> (string \<times> fileEntry list) list" where
  \<comment> \<open>\<open>processUploadedFiles\<close> up to the filled \<open>folderMap\<close>. A path has at least one
      segment, so the folder name is never \<open>undefined\<close>.\<close>
  "groupFiles fileArray =
     (let pathParts = map (\<lambda>f. split CHR ''/'' (webkitRelativePath f)) fileArray;
          commonRoot = extractCommonRoot pathParts
      in foldl (\<lambda>folderMap f.
                  case folderNameOf commonRoot f of
                    None \<Rightarrow> folderMap
                  | Some folderName \<Rightarrow> mapPush folderName f folderMap)
               [] fileArray)"

section \<open>Folder records and the application state\<close>

datatype status = PENDING | ZIPPING | COMPLETE

text \<open>
  A JSZip object is modelled by the sequence of its \<open>file(path, data)\<close> calls, and the
  blob that \<open>generateAsync\<close> resolves to by that sequence.
\<close>

type_synonym zip = "(string \<times> fileEntry) list"

datatype blob = Blob zip

record folder =
  f_id :: nat
  f_name :: string
  f_files :: "fileEntry list"
  f_status :: status
  f_progress :: nat
  f_zipBlob :: "blob option"
  f_isFile :: bool

text \<open>
  The state is \<open>state.folders\<close>, \<open>state.shouldStopZipping\<close> and, of the document,
  the ids of the folder rows in \<open>elements.foldersList\<close>: \<open>getElementById('folder', id)\<close>
  finds a row exactly when \<open>id\<close> is among them. A folder id is only ever compared.
\<close>

record app_state =
  folders :: "folder list"
  shouldStopZipping :: bool
  rows :: "nat list"

definition createFolderObject :: "nat \<Rightarrow> string \<Rightarrow> fileEntry list \<Rightarrow> folder" where
  \<comment> \<open>\<open>newId\<close> is the value \<open>generateFolderId()\<close> returns (clock plus random number).\<close>
  "createFolderObject newId name files =
     \<lparr>f_id = newId, f_name = name, f_files = files, f_status = PENDING,
      f_progress = 0, f_zipBlob = None, f_isFile = isFile name\<rparr>"

definition renderFolder :: "folder \<Rightarrow> app_state \<Rightarrow> app_state" where
  "renderFolder fo s = s\<lparr>rows := rows s @ [f_id fo]\<rparr>"

definition addFolder :: "nat \<Rightarrow> string \<Rightarrow> fileEntry list \<Rightarrow> app_state \<Rightarrow> app_state" where
  "addFolder newId name files s =
     (if list_ex (\<lambda>fo. f_name fo = name) (folders s) then s
      else let fo = createFolderObject newId name files
           in renderFolder fo (s\<lparr>folders := folders s @ [fo]\<rparr>))"

fun addFolders :: "(nat \<Rightarrow> nat) \<Rightarrow> nat \<Rightarrow> (string \<times> fileEntry list) list \<Rightarrow> app_state \<Rightarrow> app_state" where
  \<comment> \<open>\<open>folderMap.forEach((files, name) => addFolder(name, files))\<close>; \<open>ids k\<close> is the id
      generated in the \<open>k\<close>-th call.\<close>
  "addFolders ids k [] s = s"
| "addFolders ids k ((name, files) # m) s = addFolders ids (Suc k) m (addFolder (ids k) name files s)"

definition processUploadedFiles :: "(nat \<Rightarrow> nat) \<Rightarrow> fileEntry list \<Rightarrow> app_state \<Rightarrow> app_state" where
  "processUploadedFiles ids files s = addFolders ids 0 (groupFiles files) s"

definition removeFolder :: "folder \<Rightarrow> app_state \<Rightarrow> app_state" where
  \<comment> \<open>The row itself leaves the document later, in \<open>removeFolder_timeout\<close>.\<close>
  "removeFolder fo s =
     (if f_status fo = ZIPPING then s
      else if f_id fo \<notin> set (rows s) then s
      else s\<lparr>folders := filter (\<lambda>g. f_id g \<noteq> f_id fo) (folders s)\<rparr>)"

definition removeFolder_timeout :: "folder \<Rightarrow> app_state \<Rightarrow> app_state" where
  "removeFolder_timeout fo s = s\<lparr>rows := remove1 (f_id fo) (rows s)\<rparr>"

definition removeUnwantedFiles :: "app_state \<Rightarrow> app_state" where
  \<comment> \<open>The state is filtered at once. The rows fade out in timers, the last of which
      filters the state in the same way once more.\<close>
  "removeUnwantedFiles s =
     (let unwantedFiles = filter f_isFile (folders s)
      in if length unwantedFiles = 0 then s
         else s\<lparr>folders := filter (\<lambda>fo. \<not> f_isFile fo) (folders s)\<rparr>)"

section \<open>Zip operations\<close>

fun indexOf :: "'a list \<Rightarrow> 'a \<Rightarrow> int" where
  "indexOf [] x = - 1"
| "indexOf (y # ys) x =
     (if y = x then 0 else (let i = indexOf ys x in if i < 0 then - 1 else i + 1))"

definition slice :: "'a list \<Rightarrow> int \<Rightarrow> 'a list" where
  \<comment> \<open>\<open>parts.slice(start)\<close> for a start that is not negative.\<close>
  "slice parts start = drop (nat start) parts"

definition calculateRelativePath :: "fileEntry \<Rightarrow> string \<Rightarrow> string" where
  "calculateRelativePath f folderName =
     (let pathParts = split CHR ''/'' (webkitRelativePath f);
          folderIndex = indexOf pathParts folderName
      in if folderIndex \<ge> 0
         then orElse (join CHR ''/'' (slice pathParts (folderIndex + 1))) (file_name f)
         else if length pathParts > 1
         then orElse (join CHR ''/'' (slice pathParts 1)) (file_name f)
         else file_name f)"

definition resetFolderState :: "folder \<Rightarrow> folder" where
  "resetFolderState fo = fo\<lparr>f_status := PENDING, f_progress := 0\<rparr>"

text \<open>
  \<open>zipFolder\<close> and \<open>zipAllFolders\<close> are asynchronous: they give the event loop its turn
  at \<open>await delay(...)\<close> after each file and at \<open>await zip.generateAsync(...)\<close>, and
  there the click on the stop button can run \<open>stopZipping\<close>. A run carries the flag
  \<open>state.shouldStopZipping\<close> and the number of suspensions so far; a schedule says at
  which suspensions the stop click arrives. (Returning from \<open>await zipFolder(folder)\<close>
  is a continuation of the same task: no click is served there.) No other handler runs
  during a run.

  \<open>generateAsync\<close> reads the content of the files in the archive, and its promise is
  rejected when the content of one of them cannot be read; \<open>unreadable\<close> lists those
  files. Neither \<open>zipFolder\<close> nor \<open>zipAllFolders\<close> catches the rejection: each is
  rejected in turn, and the state stays as it is at that point. A settled promise is
  modelled with the state it leaves.
\<close>

datatype 'a settled = Resolved (leaves: 'a) | Rejected (leaves: 'a)

definition generateAsync :: "fileEntry list \<Rightarrow> zip \<Rightarrow> blob option" where
  \<comment> \<open>\<open>None\<close> stands for the rejection.\<close>
  "generateAsync unreadable z =
     (if list_ex (\<lambda>(relativePath, f). f \<in> set unreadable) z then None else Some (Blob z))"

type_synonym schedule = "nat \<Rightarrow> bool"

record run =
  stop :: bool
  tick :: nat

definition suspend :: "schedule \<Rightarrow> run \<Rightarrow> run" where
  \<comment> \<open>\<open>stopZipping\<close> sets the flag; nothing in a run clears it.\<close>
  "suspend sched r = \<lparr>stop = (stop r \<or> sched (tick r)), tick = Suc (tick r)\<rparr>"

fun zipFiles :: "schedule \<Rightarrow> (nat \<Rightarrow> nat \<Rightarrow> nat) \<Rightarrow> nat \<Rightarrow> fileEntry list \<Rightarrow> nat \<Rightarrow> zip \<Rightarrow> folder \<Rightarrow> run
                  \<Rightarrow> bool \<times> zip \<times> folder \<times> run" where
  \<comment> \<open>The \<open>for\<close> loop of \<open>zipFolder\<close> from index \<open>i\<close> on, over the files still to add.
      The first component tells that the loop returned through \<open>resetFolderState\<close>.
      \<open>percent (i + 1) totalFiles\<close> is \<open>Math.round(((i + 1) / totalFiles) * 100)\<close>,
      computed in floating point by the host and left open here.\<close>
  "zipFiles sched percent totalFiles [] i z fo r = (False, z, fo, r)"
| "zipFiles sched percent totalFiles (f # rest) i z fo r =
     (if stop r then (True, z, resetFolderState fo, r)
      else let relativePath = calculateRelativePath f (f_name fo);
               z' = z @ [(relativePath, f)];
               fo' = fo\<lparr>f_progress := percent (i + 1) totalFiles\<rparr>;
               r' = suspend sched r
           in zipFiles sched percent totalFiles rest (Suc i) z' fo' r')"

definition zipFolder :: "schedule \<Rightarrow> (nat \<Rightarrow> nat \<Rightarrow> nat) \<Rightarrow> fileEntry list \<Rightarrow> folder \<Rightarrow> run
                         \<Rightarrow> (folder \<times> run) settled" where
  "zipFolder sched percent unreadable fo r =
     (if stop r then Resolved (resetFolderState fo, r)
      else let fo1 = fo\<lparr>f_status := ZIPPING\<rparr>;
               totalFiles = length (f_files fo1)
           in case zipFiles sched percent totalFiles (f_files fo1) 0 [] fo1 r of
                (cancelled, z, fo2, r2) \<Rightarrow>
                  if cancelled then Resolved (fo2, r2)
                  else if stop r2 then Resolved (resetFolderState fo2, r2)
                  else let r3 = suspend sched r2
                       in case generateAsync unreadable z of
                            None \<Rightarrow> Rejected (fo2, r3)
                          | Some zipBlob \<Rightarrow>
                              Resolved (fo2\<lparr>f_zipBlob := Some zipBlob, f_status := COMPLETE,
                                            f_progress := 100\<rparr>, r3))"

definition validateAndHighlightFiles :: "app_state \<Rightarrow> bool" where
  "validateAndHighlightFiles s = (length (filter f_isFile (folders s)) \<noteq> 0)"

fun zipEach :: "schedule \<Rightarrow> (nat \<Rightarrow> nat \<Rightarrow> nat) \<Rightarrow> fileEntry list \<Rightarrow> folder list \<Rightarrow> run
                 \<Rightarrow> (folder list \<times> run) settled" where
  \<comment> \<open>The \<open>for ... of state.folders\<close> loop of \<open>zipAllFolders\<close>; each folder object is
      updated in place. A rejected \<open>await zipFolder(folder)\<close> ends the loop.\<close>
  "zipEach sched percent unreadable [] r = Resolved ([], r)"
| "zipEach sched percent unreadable (fo # rest) r =
     (if stop r then Resolved (fo # rest, r)
      else if f_status fo = PENDING \<and> \<not> f_isFile fo
      then (case zipFolder sched percent unreadable fo r of
              Rejected (fo', r') \<Rightarrow> Rejected (fo' # rest, r')
            | Resolved (fo', r') \<Rightarrow>
                map_settled (\<lambda>(rest', r''). (fo' # rest', r''))
                  (zipEach sched percent unreadable rest r'))
      else map_settled (\<lambda>(rest', r'). (fo # rest', r'))
             (zipEach sched percent unreadable rest r))"

definition zipAllFolders :: "schedule \<Rightarrow> (nat \<Rightarrow> nat \<Rightarrow> nat) \<Rightarrow> fileEntry list \<Rightarrow> app_state
                             \<Rightarrow> app_state settled" where
  "zipAllFolders sched percent unreadable s =
     (if validateAndHighlightFiles s then Resolved s
      else map_settled (\<lambda>(fs, r). s\<lparr>folders := fs, shouldStopZipping := stop r\<rparr>)
             (zipEach sched percent unreadable (folders s) \<lparr>stop = False, tick = 0\<rparr>))"

definition stopZipping :: "app_state \<Rightarrow> app_state" where
  "stopZipping s = s\<lparr>shouldStopZipping := True\<rparr>"

section \<open>Vocabulary for the outcome of a run\<close>

text \<open>
  These are not functions of \<open>script.js\<close>; the results below are stated with them.
  \<open>completed fo\<close> is the record after a zip that nothing cancelled and whose
  finalization succeeded, \<open>zipped fo\<close> what
  the loop of \<open>zipAllFolders\<close> leaves of a record it passes undisturbed, and
  \<open>suspensions fs\<close> the number of suspensions an undisturbed pass over \<open>fs\<close> takes:
  one after each file and one for the finalization of every record it zips.
\<close>

definition archiveOf :: "folder \<Rightarrow> zip" where
  "archiveOf fo = map (\<lambda>f. (calculateRelativePath f (f_name fo), f)) (f_files fo)"

definition completed :: "folder \<Rightarrow> folder" where
  "completed fo = fo\<lparr>f_zipBlob := Some (Blob (archiveOf fo)), f_status := COMPLETE, f_progress := 100\<rparr>"

definition zipped :: "folder \<Rightarrow> folder" where
  "zipped fo = (if f_status fo = PENDING \<and> \<not> f_isFile fo then completed fo else fo)"

fun suspensions :: "folder list \<Rightarrow> nat" where
  "suspensions [] = 0"
| "suspensions (fo # rest) =
     (if f_status fo = PENDING \<and> \<not> f_isFile fo then Suc (length (f_files fo)) else 0)
     + suspensions rest"

text \<open>The schedule with one stop click, at suspension \<open>n\<close>.\<close>

definition stopAt :: "nat \<Rightarrow> schedule" where
  "stopAt n k = (k = n)"

text \<open>
  Two properties of the states the application reaches. A record is set to zipping only
  by \<open>zipAllFolders\<close>, behind its test that the record is not classified as a file, and
  the classification of a record never changes. A record enters the registry together
  with its row, and the row leaves the document only after the record has left the
  registry.
\<close>

definition invalidNeverZipping :: "app_state \<Rightarrow> bool" where
  "invalidNeverZipping s = list_all (\<lambda>fo. f_isFile fo \<longrightarrow> f_status fo \<noteq> ZIPPING) (folders s)"

definition everyRecordRendered :: "app_state \<Rightarrow> bool" where
  "everyRecordRendered s = list_all (\<lambda>fo. f_id fo \<in> set (rows s)) (folders s)"

section \<open>Facts about the string helpers\<close>

lemma of_char_toLowerCase_char:
  "(of_char (toLowerCase_char c) :: nat) =
     (let n = (of_char c :: nat)
      in if (65 \<le> n \<and> n \<le> 90) \<or> (192 \<le> n \<and> n \<le> 222 \<and> n \<noteq> 215) then n + 32 else n)"
  by (auto simp: toLowerCase_char_def Let_def)

lemma toLowerCase_char_dot_iff: "toLowerCase_char c = CHR ''.'' \<longleftrightarrow> c = CHR ''.''"
proof
  assume h: "toLowerCase_char c = CHR ''.''"
  have "(of_char (toLowerCase_char c) :: nat) = 46" using h by simp
  then have "(of_char c :: nat) = 46"
    by (simp add: of_char_toLowerCase_char Let_def split: if_splits)
  then have "(of_char c :: nat) = of_char (CHR ''.'')" by simp
  then show "c = CHR ''.''" by (simp only: of_char_eq_iff)
next
  assume "c = CHR ''.''"
  then show "toLowerCase_char c = CHR ''.''" by (simp add: toLowerCase_char_def)
qed

lemma isWordChar_toLowerCase_char: "isWordChar c \<Longrightarrow> isWordChar (toLowerCase_char c)"
  unfolding isWordChar_def of_char_toLowerCase_char by (auto simp: Let_def)

lemma toLowerCase_no_dot: "CHR ''.'' \<notin> set name \<Longrightarrow> CHR ''.'' \<notin> set (toLowerCase name)"
proof
  assume nodot: "CHR ''.'' \<notin> set name" and "CHR ''.'' \<in> set (toLowerCase name)"
  then obtain c where "c \<in> set name" and "toLowerCase_char c = CHR ''.''"
    by (auto simp: toLowerCase_def)
  then show False using nodot by (simp add: toLowerCase_char_dot_iff)
qed

lemma endsWith_suffix: "endsWith s ext \<Longrightarrow> set ext \<subseteq> set s"
  unfolding endsWith_def by (metis set_drop_subset)

lemma matchGenericExtension_dot: "matchGenericExtension s \<Longrightarrow> CHR ''.'' \<in> set s"
  by (induction s) auto

lemma matchGenericExtension_append:
  "1 \<le> length ws \<Longrightarrow> length ws \<le> 5 \<Longrightarrow> list_all isWordChar ws
   \<Longrightarrow> matchGenericExtension (pre @ CHR ''.'' # ws)"
  by (induction pre) auto

lemma extension_has_dot: "ext \<in> set SUPPORTED_FILE_EXTENSIONS \<Longrightarrow> CHR ''.'' \<in> set ext"
  unfolding SUPPORTED_FILE_EXTENSIONS_def by auto

lemma all_extensions_isFile: "list_all isFile SUPPORTED_FILE_EXTENSIONS"
  by code_simp

lemma extension_isFile: "ext \<in> set SUPPORTED_FILE_EXTENSIONS \<Longrightarrow> isFile ext"
  using all_extensions_isFile by (simp add: list_all_iff)

lemma endsWith_append: "endsWith (pre @ ext) ext"
  by (simp add: endsWith_def)

lemma suffix_isFile:
  assumes "toLowerCase suffix \<in> set SUPPORTED_FILE_EXTENSIONS"
  shows "isFile (pre @ suffix)"
proof -
  have "toLowerCase (pre @ suffix) = toLowerCase pre @ toLowerCase suffix"
    by (simp add: toLowerCase_def)
  then have "endsWith (toLowerCase (pre @ suffix)) (toLowerCase suffix)"
    by (simp add: endsWith_append)
  then show ?thesis
    using assms by (auto simp: isFile_def Let_def list_ex_iff)
qed

section \<open>The classifier\<close>

text \<open>
  Claim C9. Every name of the extension table classifies as a file, and so does every
  name that ends with an entry of the table, in either case; so does every name that
  ends in a dot followed by one to five word characters, in either case; and a name
  with no dot in it classifies as a folder.
\<close>

theorem isFile_classification:
  "(ext \<in> set SUPPORTED_FILE_EXTENSIONS \<longrightarrow> isFile ext)
   \<and> (toLowerCase suffix \<in> set SUPPORTED_FILE_EXTENSIONS \<longrightarrow> isFile (stem @ suffix))
   \<and> (1 \<le> length ws \<and> length ws \<le> 5 \<and> list_all isWordChar ws
        \<longrightarrow> isFile (pre @ CHR ''.'' # ws))
   \<and> (CHR ''.'' \<notin> set name \<longrightarrow> \<not> isFile name)"
proof (intro conjI impI)
  assume "ext \<in> set SUPPORTED_FILE_EXTENSIONS"
  then show "isFile ext" by (rule extension_isFile)
next
  assume "toLowerCase suffix \<in> set SUPPORTED_FILE_EXTENSIONS"
  then show "isFile (stem @ suffix)" by (rule suffix_isFile)
next
  assume h: "1 \<le> length ws \<and> length ws \<le> 5 \<and> list_all isWordChar ws"
  have low: "toLowerCase (pre @ CHR ''.'' # ws) = toLowerCase pre @ CHR ''.'' # toLowerCase ws"
    by (simp add: toLowerCase_def toLowerCase_char_def)
  have "list_all isWordChar (toLowerCase ws)"
    using h by (simp add: toLowerCase_def list_all_iff isWordChar_toLowerCase_char)
  moreover have "length (toLowerCase ws) = length ws" by (simp add: toLowerCase_def)
  ultimately have "matchGenericExtension (toLowerCase pre @ CHR ''.'' # toLowerCase ws)"
    using h by (intro matchGenericExtension_append) simp_all
  then show "isFile (pre @ CHR ''.'' # ws)"
    by (simp add: isFile_def low)
next
  assume nodot: "CHR ''.'' \<notin> set name"
  have lownodot: "CHR ''.'' \<notin> set (toLowerCase name)"
    using nodot by (rule toLowerCase_no_dot)
  have "\<not> endsWith (toLowerCase name) ext" if "ext \<in> set SUPPORTED_FILE_EXTENSIONS" for ext
    using that lownodot extension_has_dot endsWith_suffix by blast
  moreover have "\<not> matchGenericExtension (toLowerCase name)"
    using lownodot matchGenericExtension_dot by blast
  ultimately show "\<not> isFile name"
    by (simp add: isFile_def list_ex_iff)
qed

theorem isFile_classification_witness:
  "''.docx'' \<in> set SUPPORTED_FILE_EXTENSIONS \<and> isFile ''.docx''
   \<and> toLowerCase ''.PDF'' \<in> set SUPPORTED_FILE_EXTENSIONS \<and> isFile (''Scan'' @ ''.PDF'')
   \<and> (1::nat) \<le> length ''Q7'' \<and> length ''Q7'' \<le> (5::nat) \<and> list_all isWordChar ''Q7''
   \<and> isFile (''report'' @ CHR ''.'' # ''Q7'')
   \<and> CHR ''.'' \<notin> set ''photos'' \<and> \<not> isFile ''photos''"
proof -
  have pdf: "toLowerCase ''.PDF'' = ''.pdf''"
    by code_simp
  show ?thesis
    using isFile_classification [of "''.docx''" "''.PDF''" "''Scan''" "''Q7''" "''report''" "''photos''"]
    by (simp add: pdf SUPPORTED_FILE_EXTENSIONS_def isWordChar_def)
qed

section \<open>Relative paths inside an archive\<close>

lemma split_nonempty: "split sep s \<noteq> []"
  by (induction s) (auto split: list.splits)

lemma indexOf_absent: "x \<notin> set ys \<Longrightarrow> indexOf ys x = - 1"
  by (induction ys) auto

lemma indexOf_nonneg_iff: "indexOf ys x \<ge> 0 \<longleftrightarrow> x \<in> set ys"
  by (induction ys) (auto simp: Let_def)

lemma indexOf_first: "x \<notin> set pre \<Longrightarrow> indexOf (pre @ x # post) x = int (length pre)"
  by (induction pre) (auto simp: Let_def)

lemma slice_after_first: "slice (pre @ x # post) (int (length pre) + 1) = post"
  by (simp add: slice_def nat_add_distrib)

lemma slice_one: "slice parts 1 = tl parts"
  by (simp add: slice_def drop_Suc)

lemma calculateRelativePath_found:
  assumes "split CHR ''/'' (webkitRelativePath f) = pre @ folderName # post"
    and "folderName \<notin> set pre"
  shows "calculateRelativePath f folderName = orElse (join CHR ''/'' post) (file_name f)"
  using assms by (simp add: calculateRelativePath_def Let_def indexOf_first slice_after_first)

lemma calculateRelativePath_not_found:
  assumes "folderName \<notin> set (split CHR ''/'' (webkitRelativePath f))"
  shows "calculateRelativePath f folderName =
     (if length (split CHR ''/'' (webkitRelativePath f)) = 1 then file_name f
      else orElse (join CHR ''/'' (tl (split CHR ''/'' (webkitRelativePath f)))) (file_name f))"
proof -
  obtain p ps where ps: "split CHR ''/'' (webkitRelativePath f) = p # ps"
    using split_nonempty by (cases "split CHR ''/'' (webkitRelativePath f)") auto
  show ?thesis
    using assms by (auto simp: calculateRelativePath_def Let_def indexOf_absent slice_one ps)
qed

lemma split_Root: "split CHR ''/'' ''Root/Sub/deep.txt'' = [''Root'', ''Sub'', ''deep.txt'']"
  by simp
lemma split_ABc: "split CHR ''/'' ''A/B/c.txt'' = [''A'', ''B'', ''c.txt'']"
  by simp

lemma join_not_empty: "ps \<noteq> [] \<Longrightarrow> last ps \<noteq> [] \<Longrightarrow> join sep ps \<noteq> []"
  by (induction sep ps rule: join.induct) auto

lemma tail_of_selected_path:
  assumes "webkitRelativePath f = [] \<or> file_name f \<noteq> [] \<and> last (split CHR ''/'' (webkitRelativePath f)) = file_name f"
    and "length (split CHR ''/'' (webkitRelativePath f)) \<noteq> 1"
  shows "join CHR ''/'' (tl (split CHR ''/'' (webkitRelativePath f))) \<noteq> []"
proof -
  obtain p ps where ps: "split CHR ''/'' (webkitRelativePath f) = p # ps"
    using split_nonempty by (cases "split CHR ''/'' (webkitRelativePath f)") auto
  have more: "ps \<noteq> []" using assms(2) ps by auto
  have "webkitRelativePath f \<noteq> []" using assms(2) by auto
  then have "file_name f \<noteq> []" and "last (p # ps) = file_name f"
    using assms(1) ps by auto
  then have "last ps \<noteq> []" using more by simp
  then show ?thesis using more by (simp add: ps join_not_empty)
qed

text \<open>
  Claim C3. When some segment of the file's path equals the folder name, the result is
  the segments after the first such segment joined by a slash, or the file's own name
  when that is empty. When no segment matches, the result is the segments after the
  first joined by a slash, or the bare file name when the path has only one segment;
  this for a file as a selection hands it over, whose relative path is empty or ends in
  the file's name, which is not empty. A file at \<open>Root/Sub/deep.txt\<close> in the folder
  \<open>Sub\<close> gets \<open>deep.txt\<close>, and a file at \<open>A/B/c.txt\<close> in a folder named like none of
  its segments gets \<open>B/c.txt\<close>.
\<close>

theorem calculateRelativePath_rule:
  "(split CHR ''/'' (webkitRelativePath f) = pre @ folderName # post \<and> folderName \<notin> set pre
      \<longrightarrow> calculateRelativePath f folderName = orElse (join CHR ''/'' post) (file_name f))
   \<and> ((webkitRelativePath f = []
         \<or> file_name f \<noteq> [] \<and> last (split CHR ''/'' (webkitRelativePath f)) = file_name f)
        \<and> folderName \<notin> set (split CHR ''/'' (webkitRelativePath f))
      \<longrightarrow> calculateRelativePath f folderName =
           (if length (split CHR ''/'' (webkitRelativePath f)) = 1 then file_name f
            else join CHR ''/'' (tl (split CHR ''/'' (webkitRelativePath f)))))
   \<and> calculateRelativePath \<lparr>webkitRelativePath = ''Root/Sub/deep.txt'', file_name = n1\<rparr> ''Sub''
        = ''deep.txt''
   \<and> (other \<notin> set [''A'', ''B'', ''c.txt'']
      \<longrightarrow> calculateRelativePath \<lparr>webkitRelativePath = ''A/B/c.txt'', file_name = n2\<rparr> other
           = ''B/c.txt'')"
proof (intro conjI impI)
  assume "split CHR ''/'' (webkitRelativePath f) = pre @ folderName # post \<and> folderName \<notin> set pre"
  then show "calculateRelativePath f folderName = orElse (join CHR ''/'' post) (file_name f)"
    using calculateRelativePath_found by blast
next
  assume h: "(webkitRelativePath f = []
         \<or> file_name f \<noteq> [] \<and> last (split CHR ''/'' (webkitRelativePath f)) = file_name f)
        \<and> folderName \<notin> set (split CHR ''/'' (webkitRelativePath f))"
  then have code: "calculateRelativePath f folderName =
     (if length (split CHR ''/'' (webkitRelativePath f)) = 1 then file_name f
      else orElse (join CHR ''/'' (tl (split CHR ''/'' (webkitRelativePath f)))) (file_name f))"
    using calculateRelativePath_not_found by blast
  show "calculateRelativePath f folderName =
     (if length (split CHR ''/'' (webkitRelativePath f)) = 1 then file_name f
      else join CHR ''/'' (tl (split CHR ''/'' (webkitRelativePath f))))"
  proof (cases "length (split CHR ''/'' (webkitRelativePath f)) = 1")
    case True
    then show ?thesis using code by simp
  next
    case False
    then have "join CHR ''/'' (tl (split CHR ''/'' (webkitRelativePath f))) \<noteq> []"
      using h tail_of_selected_path by blast
    then show ?thesis using code False by (simp add: orElse_def)
  qed
next
  have "calculateRelativePath \<lparr>webkitRelativePath = ''Root/Sub/deep.txt'', file_name = n1\<rparr> ''Sub''
        = orElse (join CHR ''/'' [''deep.txt'']) n1"
    using calculateRelativePath_found [of "\<lparr>webkitRelativePath = ''Root/Sub/deep.txt'', file_name = n1\<rparr>"
        "[''Root'']" "''Sub''" "[''deep.txt'']"]
    by (simp add: split_Root)
  then show "calculateRelativePath \<lparr>webkitRelativePath = ''Root/Sub/deep.txt'', file_name = n1\<rparr> ''Sub''
        = ''deep.txt''"
    by (simp add: orElse_def)
next
  assume "other \<notin> set [''A'', ''B'', ''c.txt'']"
  then have "other \<notin> set (split CHR ''/'' (webkitRelativePath \<lparr>webkitRelativePath = ''A/B/c.txt'', file_name = n2\<rparr>))"
    by (simp add: split_ABc)
  from calculateRelativePath_not_found [OF this]
  show "calculateRelativePath \<lparr>webkitRelativePath = ''A/B/c.txt'', file_name = n2\<rparr> other = ''B/c.txt''"
    by (simp add: split_ABc orElse_def)
qed

theorem calculateRelativePath_rule_witness:
  "split CHR ''/'' ''Proj/a.txt'' = [''Proj''] @ ''a.txt'' # [] \<and> ''a.txt'' \<notin> set [''Proj'']
   \<and> calculateRelativePath \<lparr>webkitRelativePath = ''Proj/a.txt'', file_name = ''a.txt''\<rparr> ''a.txt'' = ''a.txt''
   \<and> ''a.txt'' \<noteq> [] \<and> last (split CHR ''/'' ''Proj/a.txt'') = ''a.txt''
   \<and> ''lib'' \<notin> set (split CHR ''/'' ''Proj/a.txt'')
   \<and> calculateRelativePath \<lparr>webkitRelativePath = ''Proj/a.txt'', file_name = ''a.txt''\<rparr> ''lib'' = ''a.txt''
   \<and> ''lib'' \<notin> set (split CHR ''/'' [])
   \<and> calculateRelativePath \<lparr>webkitRelativePath = [], file_name = ''a.txt''\<rparr> ''lib'' = ''a.txt''
   \<and> ''lib'' \<notin> set [''A'', ''B'', ''c.txt'']
   \<and> calculateRelativePath \<lparr>webkitRelativePath = ''A/B/c.txt'', file_name = ''c.txt''\<rparr> ''lib'' = ''B/c.txt''"
  using calculateRelativePath_rule [of "\<lparr>webkitRelativePath = ''Proj/a.txt'', file_name = ''a.txt''\<rparr>"
      "[''Proj'']" "''a.txt''" "[]" "''c.txt''" "''lib''" "''c.txt''"]
    calculateRelativePath_rule [of "\<lparr>webkitRelativePath = ''Proj/a.txt'', file_name = ''a.txt''\<rparr>"
      "[]" "''lib''" "[]" "''c.txt''" "''lib''" "''c.txt''"]
    calculateRelativePath_rule [of "\<lparr>webkitRelativePath = [], file_name = ''a.txt''\<rparr>"
      "[]" "''lib''" "[]" "''c.txt''" "''lib''" "''c.txt''"]
  by (simp add: orElse_def)

section \<open>The grouping pass\<close>

lemma length_remdups_one_iff:
  "length (remdups ys) = 1 \<longleftrightarrow> ys \<noteq> [] \<and> (\<forall>y\<in>set ys. y = hd ys)"
proof
  assume "length (remdups ys) = 1"
  then have "card (set ys) = 1" by (simp add: length_remdups_card_conv)
  then obtain a where a: "set ys = {a}" by (auto simp: card_1_singleton_iff)
  then have "ys \<noteq> []" by auto
  moreover from this a have "hd ys = a" by (metis hd_in_set singletonD)
  ultimately show "ys \<noteq> [] \<and> (\<forall>y\<in>set ys. y = hd ys)" using a by auto
next
  assume h: "ys \<noteq> [] \<and> (\<forall>y\<in>set ys. y = hd ys)"
  then have "set ys = {hd ys}" by (auto simp: hd_in_set)
  then have "card (set ys) = 1" by simp
  then show "length (remdups ys) = 1" by (simp add: length_remdups_card_conv)
qed

lemma extractCommonRoot_Some_iff:
  "extractCommonRoot allPathParts = Some root
   \<longleftrightarrow> allPathParts \<noteq> [] \<and> (\<forall>parts\<in>set allPathParts. segment parts 0 = Some root)"
proof -
  define ys where "ys = map (\<lambda>parts. segment parts 0) allPathParts"
  have first: "(case allPathParts of [] \<Rightarrow> None | first # _ \<Rightarrow> segment first 0) = hd ys"
    if "allPathParts \<noteq> []"
    using that by (cases allPathParts) (simp_all add: ys_def)
  have "extractCommonRoot allPathParts = Some root
        \<longleftrightarrow> length (remdups ys) = 1 \<and> hd ys = Some root"
  proof (cases "allPathParts = []")
    case True
    then show ?thesis by (simp add: extractCommonRoot_def ys_def)
  next
    case False
    then show ?thesis
      using first by (simp add: extractCommonRoot_def Let_def flip: ys_def)
  qed
  also have "\<dots> \<longleftrightarrow> ys \<noteq> [] \<and> (\<forall>y\<in>set ys. y = Some root)"
  proof -
    have "hd ys \<in> set ys" if "ys \<noteq> []" using that by simp
    then show ?thesis unfolding length_remdups_one_iff by metis
  qed
  also have "\<dots> \<longleftrightarrow> allPathParts \<noteq> [] \<and> (\<forall>parts\<in>set allPathParts. segment parts 0 = Some root)"
    by (auto simp: ys_def)
  finally show ?thesis .
qed

text \<open>
  Called as its documentation says, with the path parts of the whole batch,
  \<open>extractFolderName\<close> follows the grouping rule for every batch whose common root is not
  the empty string.
\<close>

lemma extractFolderName_documented:
  "extractFolderName pathParts (extractCommonRoot allPathParts) allPathParts =
     (if (\<exists>root. root \<noteq> [] \<and> allPathParts \<noteq> []
            \<and> (\<forall>parts\<in>set allPathParts. segment parts 0 = Some root))
         \<and> (\<exists>parts\<in>set allPathParts. length parts > 1)
         \<and> length pathParts > 1
      then segment pathParts 1 else segment pathParts 0)"
proof (cases "extractCommonRoot allPathParts")
  case None
  then have "\<not> (\<exists>root. allPathParts \<noteq> [] \<and> (\<forall>parts\<in>set allPathParts. segment parts 0 = Some root))"
    using extractCommonRoot_Some_iff [of allPathParts] by auto
  then show ?thesis
    using None by (auto simp: extractFolderName_def truthy_def)
next
  case (Some r)
  then have r: "allPathParts \<noteq> [] \<and> (\<forall>parts\<in>set allPathParts. segment parts 0 = Some r)"
    by (simp add: extractCommonRoot_Some_iff)
  then obtain p where p: "p \<in> set allPathParts" by (cases allPathParts) auto
  have uniq: "root = r" if "\<forall>parts\<in>set allPathParts. segment parts 0 = Some root" for root
    using that r p by auto
  show ?thesis
  proof (cases "r = []")
    case True
    then show ?thesis
      using Some uniq by (auto simp: extractFolderName_def truthy_def)
  next
    case False
    then show ?thesis
      using Some r by (auto simp: extractFolderName_def truthy_def list_ex_iff)
  qed
qed

text \<open>
  Claim C1, as the code has it. For the batch of the two entries \<open>Proj/a.txt\<close> and
  \<open>Proj/sub/b.txt\<close> the grouping pass makes exactly two groups, in this order: one
  named \<open>a.txt\<close> that holds the first entry, and one named \<open>sub\<close> that holds the
  second. Added to an empty registry they become two records of these names, the first
  of them classified as a file.
\<close>

theorem groupFiles_Proj_batch:
  "groupFiles [\<lparr>webkitRelativePath = ''Proj/a.txt'', file_name = na\<rparr>,
               \<lparr>webkitRelativePath = ''Proj/sub/b.txt'', file_name = nb\<rparr>]
     = [(''a.txt'', [\<lparr>webkitRelativePath = ''Proj/a.txt'', file_name = na\<rparr>]),
        (''sub'', [\<lparr>webkitRelativePath = ''Proj/sub/b.txt'', file_name = nb\<rparr>])]
   \<and> map (\<lambda>fo. (f_name fo, f_isFile fo))
        (folders (processUploadedFiles ids
           [\<lparr>webkitRelativePath = ''Proj/a.txt'', file_name = na\<rparr>,
            \<lparr>webkitRelativePath = ''Proj/sub/b.txt'', file_name = nb\<rparr>]
           \<lparr>folders = [], shouldStopZipping = flag, rows = []\<rparr>))
     = [(''a.txt'', True), (''sub'', False)]"
proof -
  have root: "extractCommonRoot [[''Proj'', ''a.txt''], [''Proj'', ''sub'', ''b.txt'']] = Some ''Proj''"
    by (simp add: extractCommonRoot_def segment_def)
  have g: "groupFiles [\<lparr>webkitRelativePath = ''Proj/a.txt'', file_name = na\<rparr>,
               \<lparr>webkitRelativePath = ''Proj/sub/b.txt'', file_name = nb\<rparr>]
     = [(''a.txt'', [\<lparr>webkitRelativePath = ''Proj/a.txt'', file_name = na\<rparr>]),
        (''sub'', [\<lparr>webkitRelativePath = ''Proj/sub/b.txt'', file_name = nb\<rparr>])]"
    by (simp add: groupFiles_def root folderNameOf_def extractFolderName_def truthy_def segment_def)
  have a: "isFile ''a.txt''" by code_simp
  have b: "\<not> isFile ''sub''" by code_simp
  show ?thesis
    by (simp add: g processUploadedFiles_def addFolder_def createFolderObject_def
        renderFolder_def a b)
qed

theorem groupFiles_Proj_batch_counterexample:
  "groupFiles [\<lparr>webkitRelativePath = ''Proj/a.txt'', file_name = ''a.txt''\<rparr>,
               \<lparr>webkitRelativePath = ''Proj/sub/b.txt'', file_name = ''b.txt''\<rparr>]
     \<noteq> [(''Proj'', [\<lparr>webkitRelativePath = ''Proj/a.txt'', file_name = ''a.txt''\<rparr>]),
        (''sub'', [\<lparr>webkitRelativePath = ''Proj/sub/b.txt'', file_name = ''b.txt''\<rparr>])]"
proof -
  have "extractCommonRoot [[''Proj'', ''a.txt''], [''Proj'', ''sub'', ''b.txt'']] = Some ''Proj''"
    by (simp add: extractCommonRoot_def segment_def)
  then show ?thesis
    by (simp add: groupFiles_def folderNameOf_def extractFolderName_def truthy_def segment_def)
qed

text \<open>
  Claim C2 at the batch of the single entry \<open>a/b\<close>. The common root \<open>a\<close> exists and
  the entry has two segments, so the rule names the group \<open>b\<close>, the second segment. The
  grouping pass names it \<open>a\<close>: it hands \<open>extractFolderName\<close> the entry's own path where
  the paths of the batch are expected, so the test for a nested entry looks for a segment
  of more than one character and finds none.
\<close>

theorem folderNameOf_short_segments:
  "extractCommonRoot (map (\<lambda>f. split CHR ''/'' (webkitRelativePath f))
       [\<lparr>webkitRelativePath = ''a/b'', file_name = ''b''\<rparr>]) = Some ''a''
   \<and> length (split CHR ''/'' ''a/b'') > 1
   \<and> segment (split CHR ''/'' ''a/b'') 1 = Some ''b''
   \<and> extractFolderName (split CHR ''/'' ''a/b'') (Some ''a'') [split CHR ''/'' ''a/b''] = Some ''b''
   \<and> folderNameOf (Some ''a'') \<lparr>webkitRelativePath = ''a/b'', file_name = ''b''\<rparr> = Some ''a''
   \<and> groupFiles [\<lparr>webkitRelativePath = ''a/b'', file_name = ''b''\<rparr>]
        = [(''a'', [\<lparr>webkitRelativePath = ''a/b'', file_name = ''b''\<rparr>])]"
proof -
  have root: "extractCommonRoot [[''a'', ''b'']] = Some ''a''"
    by (simp add: extractCommonRoot_def segment_def)
  show ?thesis
    by (simp add: root groupFiles_def folderNameOf_def extractFolderName_def truthy_def segment_def)
qed

section \<open>The registry\<close>

lemma list_ex_name_iff: "list_ex (\<lambda>fo. f_name fo = name) fs \<longleftrightarrow> name \<in> f_name ` set fs"
  by (auto simp: list_ex_iff)

text \<open>
  Claim C7. Adding a folder under a name that a registered record already has changes
  nothing: the registry keeps its size and its records, and the files are dropped.
  Under a new name one record is appended, pending, with progress 0, no archive, and
  classified by \<open>isFile\<close>.
\<close>

theorem addFolder_contract:
  "(name \<in> f_name ` set (folders s)
      \<longrightarrow> addFolder newId name files s = s
          \<and> length (folders (addFolder newId name files s)) = length (folders s))
   \<and> (name \<notin> f_name ` set (folders s)
      \<longrightarrow> folders (addFolder newId name files s)
            = folders s @ [\<lparr>f_id = newId, f_name = name, f_files = files, f_status = PENDING,
                             f_progress = 0, f_zipBlob = None, f_isFile = isFile name\<rparr>])"
  by (simp add: addFolder_def list_ex_name_iff createFolderObject_def renderFolder_def)

theorem addFolder_contract_witness:
  "''docs'' \<in> f_name ` set (folders (addFolder 1 ''docs'' [] \<lparr>folders = [], shouldStopZipping = False, rows = []\<rparr>))
   \<and> addFolder 2 ''docs'' [\<lparr>webkitRelativePath = ''docs/a.txt'', file_name = ''a.txt''\<rparr>]
        (addFolder 1 ''docs'' [] \<lparr>folders = [], shouldStopZipping = False, rows = []\<rparr>)
      = addFolder 1 ''docs'' [] \<lparr>folders = [], shouldStopZipping = False, rows = []\<rparr>
   \<and> ''docs'' \<notin> f_name ` set (folders \<lparr>folders = [], shouldStopZipping = False, rows = []\<rparr>)
   \<and> folders (addFolder 1 ''docs'' [] \<lparr>folders = [], shouldStopZipping = False, rows = []\<rparr>)
      = [\<lparr>f_id = 1, f_name = ''docs'', f_files = [], f_status = PENDING,
          f_progress = 0, f_zipBlob = None, f_isFile = isFile ''docs''\<rparr>]"
proof -
  have new: "''docs'' \<notin> f_name ` set (folders \<lparr>folders = [], shouldStopZipping = False, rows = []\<rparr>)"
    by simp
  have one: "folders (addFolder 1 ''docs'' [] \<lparr>folders = [], shouldStopZipping = False, rows = []\<rparr>)
      = [\<lparr>f_id = 1, f_name = ''docs'', f_files = [], f_status = PENDING,
          f_progress = 0, f_zipBlob = None, f_isFile = isFile ''docs''\<rparr>]"
    using new addFolder_contract [of "''docs''" "\<lparr>folders = [], shouldStopZipping = False, rows = []\<rparr>" 1 "[]"]
    by simp
  then have old: "''docs'' \<in> f_name ` set (folders (addFolder 1 ''docs'' [] \<lparr>folders = [], shouldStopZipping = False, rows = []\<rparr>))"
    by simp
  show ?thesis
    using new one old
      addFolder_contract [of "''docs''" "addFolder 1 ''docs'' [] \<lparr>folders = [], shouldStopZipping = False, rows = []\<rparr>"
        2 "[\<lparr>webkitRelativePath = ''docs/a.txt'', file_name = ''a.txt''\<rparr>]"]
    by blast
qed

text \<open>
  What \<open>removeFolder\<close> and \<open>removeUnwantedFiles\<close> do in every state: the first has two
  guards, the status of the record and the presence of its row; the second reads the
  classification only.
\<close>

lemma removeFolder_guards:
  "(f_status fo = ZIPPING \<longrightarrow> removeFolder fo s = s)
   \<and> (f_status fo \<noteq> ZIPPING \<and> f_id fo \<in> set (rows s)
      \<longrightarrow> removeFolder fo s = s\<lparr>folders := filter (\<lambda>g. f_id g \<noteq> f_id fo) (folders s)\<rparr>)
   \<and> (f_status fo \<noteq> ZIPPING \<and> f_id fo \<notin> set (rows s) \<longrightarrow> removeFolder fo s = s)"
  by (simp add: removeFolder_def)

lemma removeUnwantedFiles_filter:
  "removeUnwantedFiles s = s\<lparr>folders := filter (\<lambda>fo. \<not> f_isFile fo) (folders s)\<rparr>"
proof (cases "filter f_isFile (folders s) = []")
  case True
  then have "\<not> f_isFile fo" if "fo \<in> set (folders s)" for fo
    using that by (auto simp: filter_empty_conv)
  then have "filter (\<lambda>fo. \<not> f_isFile fo) (folders s) = folders s"
    by (simp add: filter_id_conv)
  then show ?thesis using True by (simp add: removeUnwantedFiles_def)
next
  case False
  then show ?thesis by (simp add: removeUnwantedFiles_def Let_def)
qed

text \<open>
  The two properties hold in the empty registry and are kept by the operations on the
  registry.
\<close>

lemma invariants_initially:
  "invalidNeverZipping \<lparr>folders = [], shouldStopZipping = flag, rows = []\<rparr>
   \<and> everyRecordRendered \<lparr>folders = [], shouldStopZipping = flag, rows = []\<rparr>"
  by (simp add: invalidNeverZipping_def everyRecordRendered_def)

lemma addFolder_invalidNeverZipping:
  "invalidNeverZipping s \<Longrightarrow> invalidNeverZipping (addFolder newId name files s)"
  by (simp add: invalidNeverZipping_def addFolder_def createFolderObject_def renderFolder_def)

lemma addFolder_everyRecordRendered:
  "everyRecordRendered s \<Longrightarrow> everyRecordRendered (addFolder newId name files s)"
  by (auto simp: everyRecordRendered_def addFolder_def createFolderObject_def renderFolder_def
      list_all_iff)

lemma addFolders_invariants:
  "invalidNeverZipping s \<and> everyRecordRendered s
   \<Longrightarrow> invalidNeverZipping (addFolders ids k m s) \<and> everyRecordRendered (addFolders ids k m s)"
proof (induction m arbitrary: k s)
  case Nil
  then show ?case by simp
next
  case (Cons entry m)
  obtain name files where entry: "entry = (name, files)" by (cases entry)
  have "invalidNeverZipping (addFolder (ids k) name files s)
        \<and> everyRecordRendered (addFolder (ids k) name files s)"
    using Cons.prems addFolder_invalidNeverZipping addFolder_everyRecordRendered by blast
  from Cons.IH [OF this] show ?case by (simp add: entry)
qed

lemma processUploadedFiles_invariants:
  "invalidNeverZipping s \<and> everyRecordRendered s
   \<Longrightarrow> invalidNeverZipping (processUploadedFiles ids files s)
       \<and> everyRecordRendered (processUploadedFiles ids files s)"
  unfolding processUploadedFiles_def by (rule addFolders_invariants)

lemma removeFolder_invariants:
  "invalidNeverZipping s \<and> everyRecordRendered s
   \<Longrightarrow> invalidNeverZipping (removeFolder fo s) \<and> everyRecordRendered (removeFolder fo s)"
  by (auto simp: invalidNeverZipping_def everyRecordRendered_def removeFolder_def list_all_iff)

lemma removeFolder_timeout_invariants:
  "invalidNeverZipping s \<and> everyRecordRendered s \<Longrightarrow> f_id fo \<notin> f_id ` set (folders s)
   \<Longrightarrow> invalidNeverZipping (removeFolder_timeout fo s)
       \<and> everyRecordRendered (removeFolder_timeout fo s)"
proof -
  assume inv: "invalidNeverZipping s \<and> everyRecordRendered s"
    and gone: "f_id fo \<notin> f_id ` set (folders s)"
  have "f_id g \<in> set (remove1 (f_id fo) (rows s))" if "g \<in> set (folders s)" for g
  proof -
    have "f_id g \<in> f_id ` set (folders s)" using that by (rule imageI)
    then have "f_id g \<noteq> f_id fo" using gone by metis
    moreover have "f_id g \<in> set (rows s)"
      using that inv by (simp add: everyRecordRendered_def list_all_iff)
    ultimately show ?thesis by (simp add: in_set_remove1)
  qed
  then show ?thesis
    using inv by (simp add: invalidNeverZipping_def everyRecordRendered_def
        removeFolder_timeout_def list_all_iff)
qed

lemma removeUnwantedFiles_invariants:
  "invalidNeverZipping s \<and> everyRecordRendered s
   \<Longrightarrow> invalidNeverZipping (removeUnwantedFiles s) \<and> everyRecordRendered (removeUnwantedFiles s)"
  by (auto simp: invalidNeverZipping_def everyRecordRendered_def removeUnwantedFiles_filter
      list_all_iff)

text \<open>
  Claim C8. In a state where every registered record has its row in the document,
  removing a registered record whose status is zipping is refused: the state is
  unchanged and the registry still holds the record. A registered record that is not
  zipping leaves the registry.
\<close>

theorem removeFolder_contract:
  "everyRecordRendered s \<Longrightarrow> fo \<in> set (folders s)
   \<Longrightarrow> (f_status fo = ZIPPING
          \<longrightarrow> removeFolder fo s = s \<and> fo \<in> set (folders (removeFolder fo s)))
       \<and> (f_status fo \<noteq> ZIPPING
          \<longrightarrow> folders (removeFolder fo s) = filter (\<lambda>g. f_id g \<noteq> f_id fo) (folders s)
              \<and> fo \<notin> set (folders (removeFolder fo s)))"
  by (auto simp: everyRecordRendered_def removeFolder_def list_all_iff)

theorem removeFolder_contract_witness:
  "everyRecordRendered
      \<lparr>folders = [createFolderObject 1 ''docs'' []\<lparr>f_status := ZIPPING\<rparr>, createFolderObject 2 ''src'' []],
       shouldStopZipping = False, rows = [1, 2]\<rparr>
   \<and> f_status (createFolderObject 1 ''docs'' []\<lparr>f_status := ZIPPING\<rparr>) = ZIPPING
   \<and> removeFolder (createFolderObject 1 ''docs'' []\<lparr>f_status := ZIPPING\<rparr>)
        \<lparr>folders = [createFolderObject 1 ''docs'' []\<lparr>f_status := ZIPPING\<rparr>, createFolderObject 2 ''src'' []],
         shouldStopZipping = False, rows = [1, 2]\<rparr>
      = \<lparr>folders = [createFolderObject 1 ''docs'' []\<lparr>f_status := ZIPPING\<rparr>, createFolderObject 2 ''src'' []],
         shouldStopZipping = False, rows = [1, 2]\<rparr>
   \<and> f_status (createFolderObject 2 ''src'' []) \<noteq> ZIPPING
   \<and> folders (removeFolder (createFolderObject 2 ''src'' [])
        \<lparr>folders = [createFolderObject 1 ''docs'' []\<lparr>f_status := ZIPPING\<rparr>, createFolderObject 2 ''src'' []],
         shouldStopZipping = False, rows = [1, 2]\<rparr>)
      = [createFolderObject 1 ''docs'' []\<lparr>f_status := ZIPPING\<rparr>]"
proof -
  let ?s = "\<lparr>folders = [createFolderObject 1 ''docs'' []\<lparr>f_status := ZIPPING\<rparr>, createFolderObject 2 ''src'' []],
       shouldStopZipping = False, rows = [1, 2]\<rparr>"
  have rendered: "everyRecordRendered ?s"
    by (simp add: everyRecordRendered_def createFolderObject_def)
  have first: "createFolderObject 1 ''docs'' []\<lparr>f_status := ZIPPING\<rparr> \<in> set (folders ?s)" by simp
  have second: "createFolderObject 2 ''src'' [] \<in> set (folders ?s)" by simp
  show ?thesis
    using rendered removeFolder_contract [OF rendered first] removeFolder_contract [OF rendered second]
    by (simp add: createFolderObject_def)
qed



section \<open>Zipping one folder\<close>

lemma resetFolderState_progress [simp]:
  "resetFolderState (fo\<lparr>f_progress := p\<rparr>) = resetFolderState fo"
  by (simp add: resetFolderState_def)

lemma resetFolderState_status [simp]:
  "resetFolderState (fo\<lparr>f_status := st\<rparr>) = resetFolderState fo"
  by (simp add: resetFolderState_def)

lemma resetFolderState_idem [simp]: "resetFolderState (resetFolderState fo) = resetFolderState fo"
  by (simp add: resetFolderState_def)

lemma zipFiles_stopped:
  "stop r \<Longrightarrow> zipFiles sched percent totalFiles fs i z fo r
     = (fs \<noteq> [], z, if fs = [] then fo else resetFolderState fo, r)"
  by (cases fs) simp_all

lemma zipFiles_status:
  "zipFiles sched percent totalFiles fs i z fo r = (cancelled, z', fo', r')
   \<Longrightarrow> f_status fo' = (if cancelled then PENDING else f_status fo)"
proof (induction fs arbitrary: i z fo r)
  case Nil
  then show ?case by auto
next
  case (Cons f rest)
  show ?case
  proof (cases "stop r")
    case True
    then show ?thesis using Cons.prems by (auto simp: resetFolderState_def)
  next
    case False
    then have "zipFiles sched percent totalFiles rest (Suc i) (z @ [(calculateRelativePath f (f_name fo), f)])
        (fo\<lparr>f_progress := percent (i + 1) totalFiles\<rparr>) (suspend sched r) = (cancelled, z', fo', r')"
      using Cons.prems by (simp add: Let_def)
    from Cons.IH [OF this] show ?thesis by simp
  qed
qed

lemma zipFiles_identity:
  "zipFiles sched percent totalFiles fs i z fo r = (cancelled, z', fo', r')
   \<Longrightarrow> f_id fo' = f_id fo \<and> f_isFile fo' = f_isFile fo"
proof (induction fs arbitrary: i z fo r)
  case Nil
  then show ?case by auto
next
  case (Cons f rest)
  show ?case
  proof (cases "stop r")
    case True
    then show ?thesis using Cons.prems by (auto simp: resetFolderState_def)
  next
    case False
    then have "zipFiles sched percent totalFiles rest (Suc i) (z @ [(calculateRelativePath f (f_name fo), f)])
        (fo\<lparr>f_progress := percent (i + 1) totalFiles\<rparr>) (suspend sched r) = (cancelled, z', fo', r')"
      using Cons.prems by (simp add: Let_def)
    from Cons.IH [OF this] show ?thesis by simp
  qed
qed

lemma zipFiles_undisturbed:
  "\<not> stop r \<Longrightarrow> (\<And>j. j < length fs \<Longrightarrow> \<not> sched (tick r + j))
   \<Longrightarrow> zipFiles sched percent totalFiles fs i z fo r
     = (False, z @ map (\<lambda>f. (calculateRelativePath f (f_name fo), f)) fs,
        (if fs = [] then fo else fo\<lparr>f_progress := percent (i + length fs) totalFiles\<rparr>),
        \<lparr>stop = False, tick = tick r + length fs\<rparr>)"
proof (induction fs arbitrary: i z fo r)
  case Nil
  then show ?case by simp
next
  case (Cons f rest)
  let ?r' = "suspend sched r"
  have here: "\<not> sched (tick r)" using Cons.prems(2) [of 0] by simp
  have r': "?r' = \<lparr>stop = False, tick = Suc (tick r)\<rparr>"
    using Cons.prems(1) here by (simp add: suspend_def)
  have clear: "\<not> stop ?r'" by (simp add: r')
  have later: "\<not> sched (tick ?r' + j)" if "j < length rest" for j
    using Cons.prems(2) [of "Suc j"] that by (simp add: r')
  show ?case
    using Cons.prems(1) Cons.IH [OF clear later, where i = "Suc i"
        and z = "z @ [(calculateRelativePath f (f_name fo), f)]"
        and fo = "fo\<lparr>f_progress := percent (i + 1) totalFiles\<rparr>"]
    by (simp add: Let_def r')
qed

lemma zipFiles_stop_arrives:
  "\<not> stop r \<Longrightarrow> j < length fs \<Longrightarrow> (\<And>k. k < j \<Longrightarrow> \<not> sched (tick r + k)) \<Longrightarrow> sched (tick r + j)
   \<Longrightarrow> zipFiles sched percent totalFiles fs i z fo r = (cancelled, z', fo', r')
   \<Longrightarrow> r' = \<lparr>stop = True, tick = tick r + j + 1\<rparr> \<and> resetFolderState fo' = resetFolderState fo
       \<and> (cancelled \<longrightarrow> fo' = resetFolderState fo)"
proof (induction fs arbitrary: i z fo r j)
  case Nil
  then show ?case by simp
next
  case (Cons f rest)
  let ?r' = "suspend sched r"
  let ?z = "z @ [(calculateRelativePath f (f_name fo), f)]"
  let ?fo = "fo\<lparr>f_progress := percent (i + 1) totalFiles\<rparr>"
  have step: "zipFiles sched percent totalFiles rest (Suc i) ?z ?fo ?r' = (cancelled, z', fo', r')"
    using Cons.prems(1,5) by (simp add: Let_def)
  show ?case
  proof (cases j)
    case 0
    then have r': "?r' = \<lparr>stop = True, tick = Suc (tick r)\<rparr>"
      using Cons.prems(4) by (simp add: suspend_def)
    then have "stop ?r'" by simp
    from zipFiles_stopped [OF this, of sched percent totalFiles rest "Suc i" ?z ?fo] step
    show ?thesis using 0 r' by (auto split: if_splits)
  next
    case (Suc j')
    have here: "\<not> sched (tick r)" using Cons.prems(3) [of 0] Suc by simp
    have r': "?r' = \<lparr>stop = False, tick = Suc (tick r)\<rparr>"
      using Cons.prems(1) here by (simp add: suspend_def)
    have clear: "\<not> stop ?r'" by (simp add: r')
    have len: "j' < length rest" using Cons.prems(2) Suc by simp
    have before: "\<not> sched (tick ?r' + k)" if "k < j'" for k
      using Cons.prems(3) [of "Suc k"] that Suc by (simp add: r')
    have at: "sched (tick ?r' + j')" using Cons.prems(4) Suc by (simp add: r')
    from Cons.IH [OF clear len before at step]
    show ?thesis by (simp add: r' Suc)
  qed
qed

lemma generateAsync_readable:
  "list_all (\<lambda>f. f \<notin> set unreadable) (f_files fo)
   \<Longrightarrow> generateAsync unreadable (archiveOf fo) = Some (Blob (archiveOf fo))"
  by (auto simp: generateAsync_def archiveOf_def list_ex_iff list_all_iff)

lemma generateAsync_unreadable:
  "f \<in> set (f_files fo) \<Longrightarrow> f \<in> set unreadable \<Longrightarrow> generateAsync unreadable (archiveOf fo) = None"
  by (force simp: generateAsync_def archiveOf_def list_ex_iff)

lemma zipFolder_stopped:
  "stop r \<Longrightarrow> zipFolder sched percent unreadable fo r = Resolved (resetFolderState fo, r)"
  by (simp add: zipFolder_def)

lemma zipFolder_loop_undisturbed:
  assumes "\<not> stop r" and "\<forall>j<length (f_files fo). \<not> sched (tick r + j)"
  shows "zipFiles sched percent (length (f_files fo)) (f_files fo) 0 [] (fo\<lparr>f_status := ZIPPING\<rparr>) r
     = (False, archiveOf fo,
        (if f_files fo = [] then fo\<lparr>f_status := ZIPPING\<rparr>
         else fo\<lparr>f_status := ZIPPING, f_progress := percent (length (f_files fo)) (length (f_files fo))\<rparr>),
        \<lparr>stop = False, tick = tick r + length (f_files fo)\<rparr>)"
  using zipFiles_undisturbed [OF assms(1), of "f_files fo" sched percent "length (f_files fo)" 0 "[]"
      "fo\<lparr>f_status := ZIPPING\<rparr>"] assms(2)
  by (simp add: archiveOf_def)

lemma zipFolder_undisturbed:
  assumes "\<not> stop r" and "\<forall>j<length (f_files fo). \<not> sched (tick r + j)"
    and "list_all (\<lambda>f. f \<notin> set unreadable) (f_files fo)"
  shows "zipFolder sched percent unreadable fo r
     = Resolved (completed fo,
        \<lparr>stop = sched (tick r + length (f_files fo)), tick = tick r + length (f_files fo) + 1\<rparr>)"
  using assms(1) generateAsync_readable [OF assms(3)]
  by (simp add: zipFolder_def Let_def zipFolder_loop_undisturbed [OF assms(1,2)] suspend_def
      completed_def)

text \<open>
  A finalization that fails leaves the record zipping: \<open>zipFolder\<close> has no handler for
  the rejection.
\<close>

lemma zipFolder_rejected:
  assumes "\<not> stop r" and "\<forall>j<length (f_files fo). \<not> sched (tick r + j)"
    and "f \<in> set (f_files fo)" and "f \<in> set unreadable"
  shows "\<exists>fo' r'. zipFolder sched percent unreadable fo r = Rejected (fo', r')
           \<and> f_status fo' = ZIPPING"
  using assms(1) generateAsync_unreadable [OF assms(3,4)]
  by (simp add: zipFolder_def Let_def zipFolder_loop_undisturbed [OF assms(1,2)])

lemma zipFolder_cancelled:
  assumes "\<not> stop r" and "j < length (f_files fo)"
    and "\<forall>k<j. \<not> sched (tick r + k)" and "sched (tick r + j)"
  shows "zipFolder sched percent unreadable fo r
     = Resolved (resetFolderState fo, \<lparr>stop = True, tick = tick r + j + 1\<rparr>)"
proof -
  obtain cancelled z' fo' r' where loop:
    "zipFiles sched percent (length (f_files fo)) (f_files fo) 0 [] (fo\<lparr>f_status := ZIPPING\<rparr>) r
       = (cancelled, z', fo', r')"
    by (metis prod_cases4)
  have before: "\<not> sched (tick r + k)" if "k < j" for k using assms(3) that by simp
  from zipFiles_stop_arrives [OF assms(1) assms(2) before assms(4) loop]
  have r': "r' = \<lparr>stop = True, tick = tick r + j + 1\<rparr>"
    and same: "resetFolderState fo' = resetFolderState fo"
    and canc: "cancelled \<longrightarrow> fo' = resetFolderState fo"
    by simp_all
  show ?thesis
    using assms(1) canc same by (auto simp: zipFolder_def Let_def loop r')
qed

lemma zipFolder_settled_status:
  "(zipFolder sched percent unreadable fo r = Resolved (fo', r') \<longrightarrow> f_status fo' \<noteq> ZIPPING)
   \<and> (zipFolder sched percent unreadable fo r = Rejected (fo', r') \<longrightarrow> f_status fo' = ZIPPING)"
proof -
  obtain cancelled z fo2 r2 where loop:
    "zipFiles sched percent (length (f_files fo)) (f_files fo) 0 [] (fo\<lparr>f_status := ZIPPING\<rparr>) r
       = (cancelled, z, fo2, r2)"
    by (metis prod_cases4)
  from zipFiles_status [OF loop] show ?thesis
    by (auto simp: zipFolder_def Let_def loop resetFolderState_def split: option.splits if_splits)
qed

lemma zipFolder_identity:
  "f_id (fst (leaves (zipFolder sched percent unreadable fo r))) = f_id fo
   \<and> f_isFile (fst (leaves (zipFolder sched percent unreadable fo r))) = f_isFile fo"
proof -
  obtain cancelled z fo2 r2 where loop:
    "zipFiles sched percent (length (f_files fo)) (f_files fo) 0 [] (fo\<lparr>f_status := ZIPPING\<rparr>) r
       = (cancelled, z, fo2, r2)"
    by (metis prod_cases4)
  from zipFiles_identity [OF loop] show ?thesis
    by (auto simp: zipFolder_def Let_def loop resetFolderState_def split: option.splits)
qed

section \<open>Zipping all folders\<close>

lemma zipEach_stopped: "stop r \<Longrightarrow> zipEach sched percent unreadable fs r = Resolved (fs, r)"
  by (cases fs) simp_all

lemma zipEach_skip:
  "\<not> stop r \<Longrightarrow> \<not> (f_status fo = PENDING \<and> \<not> f_isFile fo)
   \<Longrightarrow> zipEach sched percent unreadable (fo # rest) r
     = map_settled (\<lambda>(rest', r'). (fo # rest', r')) (zipEach sched percent unreadable rest r)"
  by auto

lemma zipEach_zip:
  "\<not> stop r \<Longrightarrow> f_status fo = PENDING \<and> \<not> f_isFile fo
   \<Longrightarrow> zipFolder sched percent unreadable fo r = Resolved (fo', r')
   \<Longrightarrow> zipEach sched percent unreadable (fo # rest) r
     = map_settled (\<lambda>(rest', r''). (fo' # rest', r'')) (zipEach sched percent unreadable rest r')"
  by simp

lemma zipEach_reject:
  "\<not> stop r \<Longrightarrow> f_status fo = PENDING \<and> \<not> f_isFile fo
   \<Longrightarrow> zipFolder sched percent unreadable fo r = Rejected (fo', r')
   \<Longrightarrow> zipEach sched percent unreadable (fo # rest) r = Rejected (fo' # rest, r')"
  by simp

lemma map_settled_Cons:
  "map_settled (\<lambda>(rest', r'). (a # rest', r')) (map_settled (\<lambda>(rest', r'). (as @ rest', r')) X)
     = map_settled (\<lambda>(rest', r'). ((a # as) @ rest', r')) X"
  by (cases X) auto

lemma zipEach_undisturbed_prefix:
  "\<not> stop r \<Longrightarrow> \<forall>j<suspensions pre. \<not> sched (tick r + j)
   \<Longrightarrow> list_all (\<lambda>g. list_all (\<lambda>f. f \<notin> set unreadable) (f_files g)) pre
   \<Longrightarrow> zipEach sched percent unreadable (pre @ rest) r
     = map_settled (\<lambda>(rest', r'). (map zipped pre @ rest', r'))
         (zipEach sched percent unreadable rest \<lparr>stop = False, tick = tick r + suspensions pre\<rparr>)"
proof (induction pre arbitrary: r)
  case Nil
  then have "\<lparr>stop = False, tick = tick r\<rparr> = r" by simp
  then show ?case by (simp add: settled.map_ident)
next
  case (Cons g pre)
  have readable: "list_all (\<lambda>g. list_all (\<lambda>f. f \<notin> set unreadable) (f_files g)) pre"
    using Cons.prems(3) by simp
  show ?case
  proof (cases "f_status g = PENDING \<and> \<not> f_isFile g")
    case True
    define n where "n = length (f_files g)"
    define r' where "r' = \<lparr>stop = False, tick = tick r + n + 1\<rparr>"
    have susp: "suspensions (g # pre) = Suc n + suspensions pre"
      using True by (simp add: n_def)
    have files: "\<forall>j<length (f_files g). \<not> sched (tick r + j)"
      using Cons.prems(2) susp by (simp add: n_def)
    have final: "\<not> sched (tick r + length (f_files g))"
      using Cons.prems(2) susp by (simp add: n_def)
    have own: "list_all (\<lambda>f. f \<notin> set unreadable) (f_files g)"
      using Cons.prems(3) by simp
    have zf: "zipFolder sched percent unreadable g r = Resolved (completed g, r')"
      using zipFolder_undisturbed [OF Cons.prems(1) files own, of percent] final
      by (simp add: r'_def n_def)
    have clear: "\<not> stop r'" by (simp add: r'_def)
    have later: "\<forall>j<suspensions pre. \<not> sched (tick r' + j)"
    proof (intro allI impI)
      fix j assume "j < suspensions pre"
      then have "Suc n + j < suspensions (g # pre)" using susp by simp
      then have "\<not> sched (tick r + (Suc n + j))" using Cons.prems(2) by blast
      moreover have "tick r' + j = tick r + (Suc n + j)" by (simp add: r'_def)
      ultimately show "\<not> sched (tick r' + j)" by metis
    qed
    have ticks: "tick r' + suspensions pre = tick r + suspensions (g # pre)"
      unfolding susp by (simp add: r'_def)
    have "zipEach sched percent unreadable ((g # pre) @ rest) r
        = map_settled (\<lambda>(rest', r''). (completed g # rest', r''))
            (zipEach sched percent unreadable (pre @ rest) r')"
      using zipEach_zip [OF Cons.prems(1) True zf, of "pre @ rest"] by simp
    also have "zipEach sched percent unreadable (pre @ rest) r'
        = map_settled (\<lambda>(rest', r''). (map zipped pre @ rest', r''))
            (zipEach sched percent unreadable rest \<lparr>stop = False, tick = tick r + suspensions (g # pre)\<rparr>)"
      using Cons.IH [OF clear later readable] by (simp only: ticks)
    finally have chain: "zipEach sched percent unreadable ((g # pre) @ rest) r
        = map_settled (\<lambda>(rest', r''). ((completed g # map zipped pre) @ rest', r''))
            (zipEach sched percent unreadable rest \<lparr>stop = False, tick = tick r + suspensions (g # pre)\<rparr>)"
      by (simp only: map_settled_Cons)
    have e: "map zipped (g # pre) = completed g # map zipped pre"
      using True by (simp add: zipped_def)
    show ?thesis unfolding e using chain .
  next
    case False
    have susp: "suspensions (g # pre) = suspensions pre" using False by auto
    have later: "\<forall>j<suspensions pre. \<not> sched (tick r + j)"
      using Cons.prems(2) by (simp only: susp)
    have "zipEach sched percent unreadable ((g # pre) @ rest) r
        = map_settled (\<lambda>(rest', r'). (g # rest', r'))
            (zipEach sched percent unreadable (pre @ rest) r)"
      using zipEach_skip [OF Cons.prems(1) False, of sched percent unreadable "pre @ rest"] by simp
    also have "zipEach sched percent unreadable (pre @ rest) r
        = map_settled (\<lambda>(rest', r'). (map zipped pre @ rest', r'))
            (zipEach sched percent unreadable rest \<lparr>stop = False, tick = tick r + suspensions (g # pre)\<rparr>)"
      using Cons.IH [OF Cons.prems(1) later readable] by (simp only: susp)
    finally have chain: "zipEach sched percent unreadable ((g # pre) @ rest) r
        = map_settled (\<lambda>(rest', r'). ((g # map zipped pre) @ rest', r'))
            (zipEach sched percent unreadable rest \<lparr>stop = False, tick = tick r + suspensions (g # pre)\<rparr>)"
      by (simp only: map_settled_Cons)
    have e: "map zipped (g # pre) = g # map zipped pre"
      using False by (auto simp: zipped_def)
    show ?thesis unfolding e using chain .
  qed
qed

lemma zipEach_stop_arrives:
  assumes clear: "\<not> stop r"
    and pending: "f_status fo = PENDING \<and> \<not> f_isFile fo"
    and i: "i \<le> length (f_files fo)"
    and before: "\<forall>j<suspensions pre + i. \<not> sched (tick r + j)"
    and at: "sched (tick r + suspensions pre + i)"
    and readable: "list_all (\<lambda>g. list_all (\<lambda>f. f \<notin> set unreadable) (f_files g)) (pre @ [fo])"
  shows "zipEach sched percent unreadable (pre @ fo # post) r
     = Resolved (map zipped pre @ (if i < length (f_files fo) then resetFolderState fo else completed fo) # post,
        \<lparr>stop = True, tick = tick r + suspensions pre + i + 1\<rparr>)"
proof -
  define r0 where "r0 = \<lparr>stop = False, tick = tick r + suspensions pre\<rparr>"
  define r1 where "r1 = \<lparr>stop = True, tick = tick r + suspensions pre + i + 1\<rparr>"
  define fo' where "fo' = (if i < length (f_files fo) then resetFolderState fo else completed fo)"
  have clear0: "\<not> stop r0" by (simp add: r0_def)
  have pre: "\<forall>j<suspensions pre. \<not> sched (tick r + j)"
    using before by simp
  have readable_pre: "list_all (\<lambda>g. list_all (\<lambda>f. f \<notin> set unreadable) (f_files g)) pre"
    and readable_fo: "list_all (\<lambda>f. f \<notin> set unreadable) (f_files fo)"
    using readable by simp_all
  have own: "\<forall>k<i. \<not> sched (tick r0 + k)"
  proof (intro allI impI)
    fix k assume "k < i"
    then have "\<not> sched (tick r + (suspensions pre + k))" using before by simp
    then show "\<not> sched (tick r0 + k)" by (simp add: r0_def add.assoc)
  qed
  have at0: "sched (tick r0 + i)" using at by (simp add: r0_def)
  have zf: "zipFolder sched percent unreadable fo r0 = Resolved (fo', r1)"
  proof (cases "i < length (f_files fo)")
    case True
    from zipFolder_cancelled [OF clear0 True own at0, of percent unreadable]
    show ?thesis using True by (simp add: fo'_def r1_def r0_def)
  next
    case False
    then have eq: "i = length (f_files fo)" using i by simp
    have "\<forall>j<length (f_files fo). \<not> sched (tick r0 + j)"
      using own eq by simp
    from zipFolder_undisturbed [OF clear0 this readable_fo, of percent]
    show ?thesis using eq at0 by (simp add: fo'_def r1_def r0_def)
  qed
  have "stop r1" by (simp add: r1_def)
  then have "zipEach sched percent unreadable (fo # post) r0 = Resolved (fo' # post, r1)"
    using zipEach_zip [OF clear0 pending zf, of post] by (simp add: zipEach_stopped)
  then show ?thesis
    using zipEach_undisturbed_prefix [OF clear pre readable_pre, of percent "fo # post"]
    by (simp add: r0_def r1_def fo'_def)
qed

text \<open>
  When the loop is rejected, the record whose finalization failed is left zipping.
\<close>

lemma zipEach_rejected:
  "zipEach sched percent unreadable fs r = Rejected (fs', r')
   \<Longrightarrow> list_ex (\<lambda>g. f_status g = ZIPPING) fs'"
proof (induction fs arbitrary: r fs')
  case Nil
  then show ?case by simp
next
  case (Cons fo rest)
  have clear: "\<not> stop r" using Cons.prems by (auto simp: zipEach_stopped)
  show ?case
  proof (cases "f_status fo = PENDING \<and> \<not> f_isFile fo")
    case True
    show ?thesis
    proof (cases "zipFolder sched percent unreadable fo r")
      case (Resolved a)
      obtain fo1 r1 where a: "a = (fo1, r1)" by (cases a)
      have "map_settled (\<lambda>(rest', r''). (fo1 # rest', r'')) (zipEach sched percent unreadable rest r1)
            = Rejected (fs', r')"
        using Cons.prems zipEach_zip [OF clear True, of sched percent unreadable fo1 r1 rest] Resolved a
        by simp
      then obtain rest' where "zipEach sched percent unreadable rest r1 = Rejected (rest', r')"
        and "fs' = fo1 # rest'"
        by (cases "zipEach sched percent unreadable rest r1") auto
      then show ?thesis using Cons.IH by auto
    next
      case (Rejected a)
      obtain fo1 r1 where a: "a = (fo1, r1)" by (cases a)
      have "f_status fo1 = ZIPPING"
        using zipFolder_settled_status [of sched percent unreadable fo r fo1 r1] Rejected a by simp
      moreover have "fs' = fo1 # rest"
        using Cons.prems zipEach_reject [OF clear True, of sched percent unreadable fo1 r1 rest] Rejected a
        by simp
      ultimately show ?thesis by simp
    qed
  next
    case False
    have "map_settled (\<lambda>(rest', r'). (fo # rest', r')) (zipEach sched percent unreadable rest r)
          = Rejected (fs', r')"
      using Cons.prems zipEach_skip [OF clear False, of sched percent unreadable rest] by simp
    then obtain rest' where "zipEach sched percent unreadable rest r = Rejected (rest', r')"
      and "fs' = fo # rest'"
      by (cases "zipEach sched percent unreadable rest r") auto
    then show ?thesis using Cons.IH by auto
  qed
qed

lemma zipped_status: "f_status g \<noteq> ZIPPING \<Longrightarrow> f_status (zipped g) \<noteq> ZIPPING"
  by (simp add: zipped_def completed_def)

text \<open>
  Every suspension of an undisturbed pass belongs to one record that the pass zips: it is
  one of the pauses after its files, or its finalization.
\<close>

lemma suspension_position:
  "t < suspensions fs
   \<Longrightarrow> \<exists>pre fo post i. fs = pre @ fo # post \<and> f_status fo = PENDING \<and> \<not> f_isFile fo
         \<and> i \<le> length (f_files fo) \<and> t = suspensions pre + i"
proof (induction fs arbitrary: t)
  case Nil
  then show ?case by simp
next
  case (Cons g rest)
  show ?case
  proof (cases "f_status g = PENDING \<and> \<not> f_isFile g")
    case True
    show ?thesis
    proof (cases "t \<le> length (f_files g)")
      case here: True
      have "g # rest = [] @ g # rest \<and> f_status g = PENDING \<and> \<not> f_isFile g
            \<and> t \<le> length (f_files g) \<and> t = suspensions [] + t"
        using True here by simp
      then show ?thesis by blast
    next
      case False
      then have "t - Suc (length (f_files g)) < suspensions rest"
        using Cons.prems True by simp
      from Cons.IH [OF this] obtain pre fo post i where
        d: "rest = pre @ fo # post" "f_status fo = PENDING" "\<not> f_isFile fo"
           "i \<le> length (f_files fo)" "t - Suc (length (f_files g)) = suspensions pre + i"
        by blast
      have "g # rest = (g # pre) @ fo # post \<and> f_status fo = PENDING \<and> \<not> f_isFile fo
            \<and> i \<le> length (f_files fo) \<and> t = suspensions (g # pre) + i"
        using d True False by simp
      then show ?thesis by blast
    qed
  next
    case False
    then have "t < suspensions rest" using Cons.prems by auto
    from Cons.IH [OF this] obtain pre fo post i where
      d: "rest = pre @ fo # post" "f_status fo = PENDING" "\<not> f_isFile fo"
         "i \<le> length (f_files fo)" "t = suspensions pre + i"
      by blast
    have "g # rest = (g # pre) @ fo # post \<and> f_status fo = PENDING \<and> \<not> f_isFile fo
          \<and> i \<le> length (f_files fo) \<and> t = suspensions (g # pre) + i"
      using d False by auto
    then show ?thesis by blast
  qed
qed

lemma validateAndHighlightFiles_iff:
  "validateAndHighlightFiles s \<longleftrightarrow> (\<exists>fo\<in>set (folders s). f_isFile fo)"
  by (auto simp: validateAndHighlightFiles_def filter_empty_conv)

text \<open>
  A bulk run, however it settles, keeps the id and the classification of every record
  and leaves the records classified as files as they were; so it keeps the two
  properties of the reachable states.
\<close>

lemma leaves_map_settled: "leaves (map_settled h X) = h (leaves X)"
  by (cases X) simp_all

lemma zipEach_identity:
  "list_all2 (\<lambda>g g'. f_id g' = f_id g \<and> f_isFile g' = f_isFile g \<and> (f_isFile g \<longrightarrow> g' = g))
     fs (fst (leaves (zipEach sched percent unreadable fs r)))"
proof (induction fs arbitrary: r)
  case Nil
  then show ?case by simp
next
  case (Cons fo rest)
  have same: "list_all2 (\<lambda>g g'. f_id g' = f_id g \<and> f_isFile g' = f_isFile g \<and> (f_isFile g \<longrightarrow> g' = g)) xs xs"
    for xs :: "folder list"
    by (simp add: list_all2_same)
  show ?case
  proof (cases "stop r")
    case True
    then show ?thesis using same [of "fo # rest"] by (simp add: zipEach_stopped)
  next
    case clear: False
    show ?thesis
    proof (cases "f_status fo = PENDING \<and> \<not> f_isFile fo")
      case True
      have head: "f_id (fst (leaves (zipFolder sched percent unreadable fo r))) = f_id fo
          \<and> f_isFile (fst (leaves (zipFolder sched percent unreadable fo r))) = f_isFile fo"
        by (rule zipFolder_identity)
      show ?thesis
      proof (cases "zipFolder sched percent unreadable fo r")
        case (Resolved a)
        obtain fo1 r1 where a: "a = (fo1, r1)" by (cases a)
        have zf: "zipFolder sched percent unreadable fo r = Resolved (fo1, r1)"
          using Resolved a by simp
        have "f_id fo1 = f_id fo \<and> f_isFile fo1 = f_isFile fo \<and> \<not> f_isFile fo"
          using head zf True by simp
        then show ?thesis
          unfolding zipEach_zip [OF clear True zf]
          using Cons.IH [of r1] by (simp add: leaves_map_settled case_prod_beta)
      next
        case (Rejected a)
        obtain fo1 r1 where a: "a = (fo1, r1)" by (cases a)
        have zf: "zipFolder sched percent unreadable fo r = Rejected (fo1, r1)"
          using Rejected a by simp
        have "f_id fo1 = f_id fo \<and> f_isFile fo1 = f_isFile fo \<and> \<not> f_isFile fo"
          using head zf True by simp
        then show ?thesis
          unfolding zipEach_reject [OF clear True zf]
          using same [of rest] by simp
      qed
    next
      case False
      show ?thesis
        unfolding zipEach_skip [OF clear False]
        using Cons.IH [of r] by (simp add: leaves_map_settled case_prod_beta)
    qed
  qed
qed

lemma zipAllFolders_invariants:
  assumes "invalidNeverZipping s \<and> everyRecordRendered s"
  shows "invalidNeverZipping (leaves (zipAllFolders sched percent unreadable s))
       \<and> everyRecordRendered (leaves (zipAllFolders sched percent unreadable s))"
proof (cases "validateAndHighlightFiles s")
  case True
  then show ?thesis using assms by (simp add: zipAllFolders_def)
next
  case False
  define fs' where "fs' = fst (leaves (zipEach sched percent unreadable (folders s) \<lparr>stop = False, tick = 0\<rparr>))"
  have after: "folders (leaves (zipAllFolders sched percent unreadable s)) = fs'"
    and rows: "rows (leaves (zipAllFolders sched percent unreadable s)) = rows s"
    using False by (simp_all add: zipAllFolders_def leaves_map_settled case_prod_beta fs'_def)
  have rel: "list_all2 (\<lambda>g g'. f_id g' = f_id g \<and> f_isFile g' = f_isFile g \<and> (f_isFile g \<longrightarrow> g' = g))
      (folders s) fs'"
    unfolding fs'_def by (rule zipEach_identity)
  have each: "(f_isFile g' \<longrightarrow> f_status g' \<noteq> ZIPPING) \<and> f_id g' \<in> set (rows s)" if g': "g' \<in> set fs'" for g'
  proof -
    obtain k where k: "k < length fs'" "fs' ! k = g'"
      using g' by (auto simp: in_set_conv_nth)
    have len: "length (folders s) = length fs'" using rel by (rule list_all2_lengthD)
    have pair: "f_id g' = f_id (folders s ! k) \<and> f_isFile g' = f_isFile (folders s ! k)
        \<and> (f_isFile (folders s ! k) \<longrightarrow> g' = folders s ! k)"
      using list_all2_nthD2 [OF rel k(1)] k(2) by simp
    have mem: "folders s ! k \<in> set (folders s)" using k(1) len by simp
    have "f_isFile (folders s ! k) \<longrightarrow> f_status (folders s ! k) \<noteq> ZIPPING"
      and "f_id (folders s ! k) \<in> set (rows s)"
      using assms mem by (auto simp: invalidNeverZipping_def everyRecordRendered_def list_all_iff)
    then show ?thesis using pair by auto
  qed
  show ?thesis
    using each by (simp add: invalidNeverZipping_def everyRecordRendered_def after rows list_all_iff)
qed

text \<open>
  Claim C6. When a registered record is classified as a file, \<open>zipAllFolders\<close> returns
  before anything is archived: whatever the schedule, the state after the call is the
  state before it, with every status, progress and archive and the cancellation flag.
\<close>

theorem zipAllFolders_invalid_record:
  "fo \<in> set (folders s) \<Longrightarrow> f_isFile fo \<Longrightarrow> zipAllFolders sched percent unreadable s = Resolved s"
  using validateAndHighlightFiles_iff [of s] by (auto simp: zipAllFolders_def)

theorem zipAllFolders_invalid_record_witness:
  "\<forall>percent sched unreadable.
     createFolderObject 2 ''notes.txt'' [] \<in> set [createFolderObject 1 ''docs'' [], createFolderObject 2 ''notes.txt'' []]
     \<and> f_isFile (createFolderObject 2 ''notes.txt'' [])
     \<and> zipAllFolders sched percent unreadable
          \<lparr>folders = [createFolderObject 1 ''docs'' [], createFolderObject 2 ''notes.txt'' []],
           shouldStopZipping = True, rows = [1, 2]\<rparr>
        = Resolved \<lparr>folders = [createFolderObject 1 ''docs'' [], createFolderObject 2 ''notes.txt'' []],
           shouldStopZipping = True, rows = [1, 2]\<rparr>"
proof (intro allI)
  fix percent sched unreadable
  have "isFile ''notes.txt''" by code_simp
  then have inv: "f_isFile (createFolderObject 2 ''notes.txt'' [])"
    by (simp add: createFolderObject_def)
  have mem: "createFolderObject 2 ''notes.txt'' []
      \<in> set (folders \<lparr>folders = [createFolderObject 1 ''docs'' [], createFolderObject 2 ''notes.txt'' []],
         shouldStopZipping = True, rows = [1, 2]\<rparr>)"
    by simp
  from zipAllFolders_invalid_record [OF mem inv, of sched percent unreadable] inv
  show "createFolderObject 2 ''notes.txt'' [] \<in> set [createFolderObject 1 ''docs'' [], createFolderObject 2 ''notes.txt'' []]
     \<and> f_isFile (createFolderObject 2 ''notes.txt'' [])
     \<and> zipAllFolders sched percent unreadable
          \<lparr>folders = [createFolderObject 1 ''docs'' [], createFolderObject 2 ''notes.txt'' []],
           shouldStopZipping = True, rows = [1, 2]\<rparr>
        = Resolved \<lparr>folders = [createFolderObject 1 ''docs'' [], createFolderObject 2 ''notes.txt'' []],
           shouldStopZipping = True, rows = [1, 2]\<rparr>"
    by simp
qed

text \<open>
  Claim C10. A record with no files, zipped while the cancellation flag is clear, ends
  complete with progress 100 and an archive, the empty one, and the call is not
  rejected; the loop over its files returns at once, so the result is the same whatever
  the percentage computation would give for a count of zero.
\<close>

theorem zipFolder_no_files:
  "f_files fo = [] \<Longrightarrow> f_status fo = PENDING \<Longrightarrow> \<not> stop r
   \<Longrightarrow> zipFiles sched percent 0 (f_files fo) 0 [] (fo\<lparr>f_status := ZIPPING\<rparr>) r
        = (False, [], fo\<lparr>f_status := ZIPPING\<rparr>, r)
     \<and> zipFolder sched percent unreadable fo r
        = Resolved (fo\<lparr>f_zipBlob := Some (Blob []), f_status := COMPLETE, f_progress := 100\<rparr>,
                    suspend sched r)"
  by (simp add: zipFolder_def generateAsync_def)

theorem zipFolder_no_files_witness:
  "\<forall>percent sched unreadable.
     f_files (createFolderObject 1 ''docs'' []) = []
     \<and> f_status (createFolderObject 1 ''docs'' []) = PENDING
     \<and> \<not> stop \<lparr>stop = False, tick = 0\<rparr>
     \<and> fst (leaves (zipFolder sched percent unreadable (createFolderObject 1 ''docs'' [])
          \<lparr>stop = False, tick = 0\<rparr>))
        = \<lparr>f_id = 1, f_name = ''docs'', f_files = [], f_status = COMPLETE, f_progress = 100,
           f_zipBlob = Some (Blob []), f_isFile = isFile ''docs''\<rparr>"
proof (intro allI)
  fix percent sched unreadable
  show "f_files (createFolderObject 1 ''docs'' []) = []
     \<and> f_status (createFolderObject 1 ''docs'' []) = PENDING
     \<and> \<not> stop \<lparr>stop = False, tick = 0\<rparr>
     \<and> fst (leaves (zipFolder sched percent unreadable (createFolderObject 1 ''docs'' [])
          \<lparr>stop = False, tick = 0\<rparr>))
        = \<lparr>f_id = 1, f_name = ''docs'', f_files = [], f_status = COMPLETE, f_progress = 100,
           f_zipBlob = Some (Blob []), f_isFile = isFile ''docs''\<rparr>"
    using zipFolder_no_files [of "createFolderObject 1 ''docs'' []" "\<lparr>stop = False, tick = 0\<rparr>"
        sched percent unreadable]
    by (simp add: createFolderObject_def)
qed

text \<open>
  Claim C4, as the code has it. Take a bulk run over a registry without invalid or
  zipping records, in which no file is unreadable, so that no finalization fails, and in
  which the stop request first arrives at a suspension of the record \<open>fo\<close>: the records
  before it have been zipped. The run is not rejected, and after it no record is left
  zipping and the flag is set. The records after \<open>fo\<close>, not yet started, are left as they
  were. The record \<open>fo\<close> itself ends pending with progress 0 when the request arrived at
  one of the pauses after its files, since the flag is checked before each file and
  before the finalization; when the request arrived while the archive was being
  finalized, nothing checks the flag again and \<open>fo\<close> ends complete with progress 100.
\<close>

theorem zipAllFolders_stop_request:
  assumes "folders s = pre @ fo # post"
    and "list_all (\<lambda>g. \<not> f_isFile g \<and> f_status g \<noteq> ZIPPING) (folders s)"
    and "list_all (\<lambda>g. list_all (\<lambda>f. f \<notin> set unreadable) (f_files g)) (folders s)"
    and "f_status fo = PENDING"
    and "i \<le> length (f_files fo)"
    and "\<forall>j<suspensions pre + i. \<not> sched j"
    and "sched (suspensions pre + i)"
  shows "zipAllFolders sched percent unreadable s
        = Resolved (s\<lparr>folders := map zipped pre
                          @ (if i < length (f_files fo) then resetFolderState fo else completed fo) # post,
                      shouldStopZipping := True\<rparr>)
    \<and> list_all (\<lambda>g. f_status g \<noteq> ZIPPING) (folders (leaves (zipAllFolders sched percent unreadable s)))
    \<and> shouldStopZipping (leaves (zipAllFolders sched percent unreadable s))
    \<and> folders (leaves (zipAllFolders sched percent unreadable s))
        = map zipped pre @ (if i < length (f_files fo) then resetFolderState fo else completed fo) # post
    \<and> (i < length (f_files fo)
        \<longrightarrow> f_status (folders (leaves (zipAllFolders sched percent unreadable s)) ! length pre) = PENDING
            \<and> f_progress (folders (leaves (zipAllFolders sched percent unreadable s)) ! length pre) = 0)
    \<and> (i = length (f_files fo)
        \<longrightarrow> f_status (folders (leaves (zipAllFolders sched percent unreadable s)) ! length pre) = COMPLETE
            \<and> f_progress (folders (leaves (zipAllFolders sched percent unreadable s)) ! length pre) = 100)
    \<and> drop (Suc (length pre)) (folders (leaves (zipAllFolders sched percent unreadable s))) = post"
proof -
  define r0 where "r0 = \<lparr>stop = False, tick = 0\<rparr>"
  define fo' where "fo' = (if i < length (f_files fo) then resetFolderState fo else completed fo)"
  have valid: "\<not> validateAndHighlightFiles s"
    using assms(2) by (auto simp: validateAndHighlightFiles_iff list_all_iff)
  have nozip: "list_all (\<lambda>g. f_status g \<noteq> ZIPPING) (pre @ fo # post)"
    using assms(1,2) by (auto simp: list_all_iff)
  have "fo \<in> set (folders s)" using assms(1) by simp
  then have pending: "f_status fo = PENDING \<and> \<not> f_isFile fo"
    using assms(2,4) by (auto simp: list_all_iff)
  have readable: "list_all (\<lambda>g. list_all (\<lambda>f. f \<notin> set unreadable) (f_files g)) (pre @ [fo])"
    using assms(1,3) by simp
  have clear: "\<not> stop r0" by (simp add: r0_def)
  have before: "\<forall>j<suspensions pre + i. \<not> sched (tick r0 + j)"
    using assms(6) by (simp add: r0_def)
  have at: "sched (tick r0 + suspensions pre + i)"
    using assms(7) by (simp add: r0_def)
  have run: "zipEach sched percent unreadable (folders s) r0
       = Resolved (map zipped pre @ fo' # post, \<lparr>stop = True, tick = tick r0 + suspensions pre + i + 1\<rparr>)"
    using zipEach_stop_arrives [OF clear pending assms(5) before at readable, of percent post]
    by (simp add: assms(1) fo'_def)
  have after: "zipAllFolders sched percent unreadable s
       = Resolved (s\<lparr>folders := map zipped pre @ fo' # post, shouldStopZipping := True\<rparr>)"
    using valid run by (simp add: zipAllFolders_def r0_def)
  have fs: "folders (leaves (zipAllFolders sched percent unreadable s)) = map zipped pre @ fo' # post"
    by (simp add: after)
  have "f_status fo' \<noteq> ZIPPING"
    by (simp add: fo'_def resetFolderState_def completed_def)
  then have a: "list_all (\<lambda>g. f_status g \<noteq> ZIPPING) (map zipped pre @ fo' # post)"
    using nozip by (auto simp: list_all_iff zipped_status)
  have b: "shouldStopZipping (leaves (zipAllFolders sched percent unreadable s))" by (simp add: after)
  have nth: "folders (leaves (zipAllFolders sched percent unreadable s)) ! length pre = fo'"
    by (simp add: fs nth_append)
  have c: "i < length (f_files fo) \<longrightarrow> f_status fo' = PENDING \<and> f_progress fo' = 0"
    by (simp add: fo'_def resetFolderState_def)
  have d: "i = length (f_files fo) \<longrightarrow> f_status fo' = COMPLETE \<and> f_progress fo' = 100"
    by (simp add: fo'_def completed_def)
  have e: "drop (Suc (length pre)) (folders (leaves (zipAllFolders sched percent unreadable s))) = post"
    by (simp add: fs)
  show ?thesis
    unfolding nth using after a b c d e unfolding fs fo'_def by blast
qed

theorem zipAllFolders_stop_request_witness:
  "\<forall>percent.
     folders \<lparr>folders = [createFolderObject 1 ''docs'' [\<lparr>webkitRelativePath = ''Proj/docs/a.txt'', file_name = ''a.txt''\<rparr>],
                          createFolderObject 2 ''src'' [\<lparr>webkitRelativePath = ''Proj/src/b.js'', file_name = ''b.js''\<rparr>,
                                                        \<lparr>webkitRelativePath = ''Proj/src/c.js'', file_name = ''c.js''\<rparr>],
                          createFolderObject 3 ''lib'' [\<lparr>webkitRelativePath = ''Proj/lib/d.js'', file_name = ''d.js''\<rparr>]],
              shouldStopZipping = False, rows = [1, 2, 3]\<rparr>
       = [createFolderObject 1 ''docs'' [\<lparr>webkitRelativePath = ''Proj/docs/a.txt'', file_name = ''a.txt''\<rparr>]]
         @ createFolderObject 2 ''src'' [\<lparr>webkitRelativePath = ''Proj/src/b.js'', file_name = ''b.js''\<rparr>,
                                         \<lparr>webkitRelativePath = ''Proj/src/c.js'', file_name = ''c.js''\<rparr>]
         # [createFolderObject 3 ''lib'' [\<lparr>webkitRelativePath = ''Proj/lib/d.js'', file_name = ''d.js''\<rparr>]]
     \<and> stopAt 3 (suspensions [createFolderObject 1 ''docs'' [\<lparr>webkitRelativePath = ''Proj/docs/a.txt'', file_name = ''a.txt''\<rparr>]] + 1)
     \<and> shouldStopZipping (leaves (zipAllFolders (stopAt 3) percent []
          \<lparr>folders = [createFolderObject 1 ''docs'' [\<lparr>webkitRelativePath = ''Proj/docs/a.txt'', file_name = ''a.txt''\<rparr>],
                      createFolderObject 2 ''src'' [\<lparr>webkitRelativePath = ''Proj/src/b.js'', file_name = ''b.js''\<rparr>,
                                                    \<lparr>webkitRelativePath = ''Proj/src/c.js'', file_name = ''c.js''\<rparr>],
                      createFolderObject 3 ''lib'' [\<lparr>webkitRelativePath = ''Proj/lib/d.js'', file_name = ''d.js''\<rparr>]],
           shouldStopZipping = False, rows = [1, 2, 3]\<rparr>))
     \<and> map (\<lambda>g. (f_name g, f_status g, f_progress g)) (folders (leaves (zipAllFolders (stopAt 3) percent []
          \<lparr>folders = [createFolderObject 1 ''docs'' [\<lparr>webkitRelativePath = ''Proj/docs/a.txt'', file_name = ''a.txt''\<rparr>],
                      createFolderObject 2 ''src'' [\<lparr>webkitRelativePath = ''Proj/src/b.js'', file_name = ''b.js''\<rparr>,
                                                    \<lparr>webkitRelativePath = ''Proj/src/c.js'', file_name = ''c.js''\<rparr>],
                      createFolderObject 3 ''lib'' [\<lparr>webkitRelativePath = ''Proj/lib/d.js'', file_name = ''d.js''\<rparr>]],
           shouldStopZipping = False, rows = [1, 2, 3]\<rparr>)))
       = [(''docs'', COMPLETE, 100), (''src'', PENDING, 0), (''lib'', PENDING, 0)]"
proof (intro allI)
  fix percent :: "nat \<Rightarrow> nat \<Rightarrow> nat"
  have names: "\<not> isFile ''docs''" "\<not> isFile ''src''" "\<not> isFile ''lib''"
    by code_simp+
  show "folders \<lparr>folders = [createFolderObject 1 ''docs'' [\<lparr>webkitRelativePath = ''Proj/docs/a.txt'', file_name = ''a.txt''\<rparr>],
                          createFolderObject 2 ''src'' [\<lparr>webkitRelativePath = ''Proj/src/b.js'', file_name = ''b.js''\<rparr>,
                                                        \<lparr>webkitRelativePath = ''Proj/src/c.js'', file_name = ''c.js''\<rparr>],
                          createFolderObject 3 ''lib'' [\<lparr>webkitRelativePath = ''Proj/lib/d.js'', file_name = ''d.js''\<rparr>]],
              shouldStopZipping = False, rows = [1, 2, 3]\<rparr>
       = [createFolderObject 1 ''docs'' [\<lparr>webkitRelativePath = ''Proj/docs/a.txt'', file_name = ''a.txt''\<rparr>]]
         @ createFolderObject 2 ''src'' [\<lparr>webkitRelativePath = ''Proj/src/b.js'', file_name = ''b.js''\<rparr>,
                                         \<lparr>webkitRelativePath = ''Proj/src/c.js'', file_name = ''c.js''\<rparr>]
         # [createFolderObject 3 ''lib'' [\<lparr>webkitRelativePath = ''Proj/lib/d.js'', file_name = ''d.js''\<rparr>]]
     \<and> stopAt 3 (suspensions [createFolderObject 1 ''docs'' [\<lparr>webkitRelativePath = ''Proj/docs/a.txt'', file_name = ''a.txt''\<rparr>]] + 1)
     \<and> shouldStopZipping (leaves (zipAllFolders (stopAt 3) percent []
          \<lparr>folders = [createFolderObject 1 ''docs'' [\<lparr>webkitRelativePath = ''Proj/docs/a.txt'', file_name = ''a.txt''\<rparr>],
                      createFolderObject 2 ''src'' [\<lparr>webkitRelativePath = ''Proj/src/b.js'', file_name = ''b.js''\<rparr>,
                                                    \<lparr>webkitRelativePath = ''Proj/src/c.js'', file_name = ''c.js''\<rparr>],
                      createFolderObject 3 ''lib'' [\<lparr>webkitRelativePath = ''Proj/lib/d.js'', file_name = ''d.js''\<rparr>]],
           shouldStopZipping = False, rows = [1, 2, 3]\<rparr>))
     \<and> map (\<lambda>g. (f_name g, f_status g, f_progress g)) (folders (leaves (zipAllFolders (stopAt 3) percent []
          \<lparr>folders = [createFolderObject 1 ''docs'' [\<lparr>webkitRelativePath = ''Proj/docs/a.txt'', file_name = ''a.txt''\<rparr>],
                      createFolderObject 2 ''src'' [\<lparr>webkitRelativePath = ''Proj/src/b.js'', file_name = ''b.js''\<rparr>,
                                                    \<lparr>webkitRelativePath = ''Proj/src/c.js'', file_name = ''c.js''\<rparr>],
                      createFolderObject 3 ''lib'' [\<lparr>webkitRelativePath = ''Proj/lib/d.js'', file_name = ''d.js''\<rparr>]],
           shouldStopZipping = False, rows = [1, 2, 3]\<rparr>)))
       = [(''docs'', COMPLETE, 100), (''src'', PENDING, 0), (''lib'', PENDING, 0)]"
    using zipAllFolders_stop_request [of
        "\<lparr>folders = [createFolderObject 1 ''docs'' [\<lparr>webkitRelativePath = ''Proj/docs/a.txt'', file_name = ''a.txt''\<rparr>],
                    createFolderObject 2 ''src'' [\<lparr>webkitRelativePath = ''Proj/src/b.js'', file_name = ''b.js''\<rparr>,
                                                  \<lparr>webkitRelativePath = ''Proj/src/c.js'', file_name = ''c.js''\<rparr>],
                    createFolderObject 3 ''lib'' [\<lparr>webkitRelativePath = ''Proj/lib/d.js'', file_name = ''d.js''\<rparr>]],
         shouldStopZipping = False, rows = [1, 2, 3]\<rparr>"
        "[createFolderObject 1 ''docs'' [\<lparr>webkitRelativePath = ''Proj/docs/a.txt'', file_name = ''a.txt''\<rparr>]]"
        "createFolderObject 2 ''src'' [\<lparr>webkitRelativePath = ''Proj/src/b.js'', file_name = ''b.js''\<rparr>,
                                       \<lparr>webkitRelativePath = ''Proj/src/c.js'', file_name = ''c.js''\<rparr>]"
        "[createFolderObject 3 ''lib'' [\<lparr>webkitRelativePath = ''Proj/lib/d.js'', file_name = ''d.js''\<rparr>]]"
        "[]" 1 "stopAt 3" percent]
    by (simp add: createFolderObject_def names stopAt_def zipped_def completed_def resetFolderState_def)
qed

text \<open>
  The claim as written has every record that is in flight when the flag is set end
  pending with progress 0. Here the only record has one file, which is readable. After
  the loop over its files the run stands before the finalization with the flag clear
  and the record zipping; the stop click arrives during the finalization, and the
  record ends complete with progress 100, whatever the percentage computation gives.
\<close>

theorem zipAllFolders_stop_during_finalization_counterexample:
  "\<forall>percent.
     zipFiles (stopAt 1) percent 1 [\<lparr>webkitRelativePath = ''Proj/docs/a.txt'', file_name = ''a.txt''\<rparr>] 0 []
        (createFolderObject 1 ''docs'' [\<lparr>webkitRelativePath = ''Proj/docs/a.txt'', file_name = ''a.txt''\<rparr>]
           \<lparr>f_status := ZIPPING\<rparr>)
        \<lparr>stop = False, tick = 0\<rparr>
       = (False, [(''a.txt'', \<lparr>webkitRelativePath = ''Proj/docs/a.txt'', file_name = ''a.txt''\<rparr>)],
          createFolderObject 1 ''docs'' [\<lparr>webkitRelativePath = ''Proj/docs/a.txt'', file_name = ''a.txt''\<rparr>]
            \<lparr>f_status := ZIPPING, f_progress := percent 1 1\<rparr>,
          \<lparr>stop = False, tick = 1\<rparr>)
     \<and> stop (suspend (stopAt 1) \<lparr>stop = False, tick = 1\<rparr>)
     \<and> zipAllFolders (stopAt 1) percent []
          \<lparr>folders = [createFolderObject 1 ''docs'' [\<lparr>webkitRelativePath = ''Proj/docs/a.txt'', file_name = ''a.txt''\<rparr>]],
           shouldStopZipping = False, rows = [1]\<rparr>
        = Resolved
           \<lparr>folders = [createFolderObject 1 ''docs'' [\<lparr>webkitRelativePath = ''Proj/docs/a.txt'', file_name = ''a.txt''\<rparr>]
                         \<lparr>f_zipBlob := Some (Blob [(''a.txt'', \<lparr>webkitRelativePath = ''Proj/docs/a.txt'', file_name = ''a.txt''\<rparr>)]),
                          f_status := COMPLETE, f_progress := 100\<rparr>],
            shouldStopZipping = True, rows = [1]\<rparr>"
proof (intro allI)
  fix percent :: "nat \<Rightarrow> nat \<Rightarrow> nat"
  have name: "\<not> isFile ''docs''" by code_simp
  have path: "calculateRelativePath \<lparr>webkitRelativePath = ''Proj/docs/a.txt'', file_name = ''a.txt''\<rparr> ''docs'' = ''a.txt''"
    by (simp add: calculateRelativePath_def Let_def slice_def orElse_def)
  have loop: "zipFiles (stopAt 1) percent 1 [\<lparr>webkitRelativePath = ''Proj/docs/a.txt'', file_name = ''a.txt''\<rparr>] 0 []
      (createFolderObject 1 ''docs'' [\<lparr>webkitRelativePath = ''Proj/docs/a.txt'', file_name = ''a.txt''\<rparr>]
         \<lparr>f_status := ZIPPING\<rparr>)
      \<lparr>stop = False, tick = 0\<rparr>
     = (False, [(''a.txt'', \<lparr>webkitRelativePath = ''Proj/docs/a.txt'', file_name = ''a.txt''\<rparr>)],
        createFolderObject 1 ''docs'' [\<lparr>webkitRelativePath = ''Proj/docs/a.txt'', file_name = ''a.txt''\<rparr>]
          \<lparr>f_status := ZIPPING, f_progress := percent 1 1\<rparr>,
        \<lparr>stop = False, tick = 1\<rparr>)"
    by (simp add: createFolderObject_def path suspend_def stopAt_def)
  show "zipFiles (stopAt 1) percent 1 [\<lparr>webkitRelativePath = ''Proj/docs/a.txt'', file_name = ''a.txt''\<rparr>] 0 []
        (createFolderObject 1 ''docs'' [\<lparr>webkitRelativePath = ''Proj/docs/a.txt'', file_name = ''a.txt''\<rparr>]
           \<lparr>f_status := ZIPPING\<rparr>)
        \<lparr>stop = False, tick = 0\<rparr>
       = (False, [(''a.txt'', \<lparr>webkitRelativePath = ''Proj/docs/a.txt'', file_name = ''a.txt''\<rparr>)],
          createFolderObject 1 ''docs'' [\<lparr>webkitRelativePath = ''Proj/docs/a.txt'', file_name = ''a.txt''\<rparr>]
            \<lparr>f_status := ZIPPING, f_progress := percent 1 1\<rparr>,
          \<lparr>stop = False, tick = 1\<rparr>)
     \<and> stop (suspend (stopAt 1) \<lparr>stop = False, tick = 1\<rparr>)
     \<and> zipAllFolders (stopAt 1) percent []
          \<lparr>folders = [createFolderObject 1 ''docs'' [\<lparr>webkitRelativePath = ''Proj/docs/a.txt'', file_name = ''a.txt''\<rparr>]],
           shouldStopZipping = False, rows = [1]\<rparr>
        = Resolved
           \<lparr>folders = [createFolderObject 1 ''docs'' [\<lparr>webkitRelativePath = ''Proj/docs/a.txt'', file_name = ''a.txt''\<rparr>]
                         \<lparr>f_zipBlob := Some (Blob [(''a.txt'', \<lparr>webkitRelativePath = ''Proj/docs/a.txt'', file_name = ''a.txt''\<rparr>)]),
                          f_status := COMPLETE, f_progress := 100\<rparr>],
            shouldStopZipping = True, rows = [1]\<rparr>"
    unfolding loop
    by (simp add: zipAllFolders_def validateAndHighlightFiles_def zipFolder_def generateAsync_def
        loop [unfolded createFolderObject_def] createFolderObject_def name path suspend_def stopAt_def)
qed

end
